theory Spec2Isabelle
  imports Main "HOL-Library.Word"
begin

unbundle bit_operations_syntax

section \<open>Machine types shared by both engines\<close>

text \<open>
  Both engines are compiled for a 64-bit target: \<open>size_t\<close> and \<open>size_type\<close> are
  64-bit unsigned integers, fingerprints are \<open>uint32_t\<close>.  Items and keys are taken to
  be \<open>uint64_t\<close>, the only instantiation under which \<open>item >> 32\<close>, \<open>item >> hp_\<close>
  and \<open>const size_type hv = b.key(slot)\<close> are meaningful.
\<close>

type_synonym size_type = "64 word"
type_synonym item_type = "64 word"
type_synonym tag_type = "32 word"

text \<open>The 64-bit MurmurHash2 constant used by both alternate-index functions.\<close>

definition murmur_const :: size_type where
  "murmur_const = 0xc6a4a7935bd1e995"

section \<open>Table engine: index arithmetic (cuckoohashtable.hh)\<close>

text \<open>\<open>hashsize(hp) = size_type(1) << hp\<close>.\<close>

definition hashsize :: "nat \<Rightarrow> size_type" where
  "hashsize hp = push_bit hp 1"

text \<open>\<open>hashmask(hp) = hashsize(hp) - 1\<close>.\<close>

definition hashmask :: "nat \<Rightarrow> size_type" where
  "hashmask hp = hashsize hp - 1"

text \<open>\<open>index_hash(hp, hv) = hv & hashmask(hp)\<close>.\<close>

definition index_hash :: "nat \<Rightarrow> size_type \<Rightarrow> size_type" where
  "index_hash hp hv = hv AND hashmask hp"

text \<open>
  \<open>alt_index(hp, hv, index)\<close>: \<open>tag = (hv >> hp) + 1\<close>, then
  \<open>(index ^ (tag * 0xc6a4a7935bd1e995)) & hashmask(hp)\<close>.
\<close>

definition alt_index :: "nat \<Rightarrow> size_type \<Rightarrow> size_type \<Rightarrow> size_type" where
  "alt_index hp hv index =
     (let tag = drop_bit hp hv + 1
      in (index XOR (tag * murmur_const)) AND hashmask hp)"

section \<open>Exceptions and assertion failures\<close>

text \<open>
  A C++ exception (\<open>std::vector::at\<close>, \<open>throw std::out_of_range\<close>) and a failed
  \<open>assert\<close> leave the operation without a result; both are results of the model.
\<close>

datatype exn = out_of_range | assertion_failed

section \<open>Filter engine (cuckoofilter.h)\<close>

datatype Status = Ok | NotFound | NotEnoughSpace | NotSupported

definition kMaxCuckooCount :: nat where
  "kMaxCuckooCount = 500"

record VictimCache =
  vc_index :: size_type
  vc_tag :: tag_type
  vc_used :: bool

text \<open>
  The members of \<open>CuckooFilter\<close>, with the prefix cf in place of the trailing
  underscore of the C++.  The template arguments \<open>bits_per_item\<close> and \<open>HashFamily\<close> (the
  object \<open>hasher_\<close>) are fields as well, so that one definition covers every
  instantiation.  \<open>table_\<close> is the bucket array of \<open>SingleTable\<close>.
\<close>

record CuckooFilter =
  cf_table :: "tag_type list list"
  cf_num_items :: size_type
  cf_victim :: VictimCache
  cf_hasher :: "item_type \<Rightarrow> int \<Rightarrow> 64 word"
  cf_seeds :: "int list"
  cf_hp :: nat
  bits_per_item :: nat

subsection \<open>The bucket store\<close>

text \<open>
  Modelled from the spec: \<open>singletable.h\<close> (class \<open>SingleTable\<close>) is not among the
  sources.  The spec describes the store as a fixed-capacity array of buckets of four
  slots each; tag zero means "empty"; it supports an occupancy test, get, set and clear of
  a slot, and reports the bucket count.
\<close>

definition kTagsPerBucket :: nat where
  "kTagsPerBucket = 4"

definition NumBuckets :: "tag_type list list \<Rightarrow> size_type" where
  "NumBuckets tbl = of_nat (length tbl)"

text \<open>The lowest empty slot of a bucket, if there is one.\<close>

fun find_slot :: "tag_type \<Rightarrow> tag_type list \<Rightarrow> nat option" where
  "find_slot t [] = None"
| "find_slot t (x # xs) =
     (if x = t then Some 0 else map_option Suc (find_slot t xs))"

text \<open>
  Modelled from the spec: \<open>InsertTagToBucket(i, tag, kickout, oldtag)\<close>.  "Attempt to
  place the tag in an empty slot of the current bucket.  If the bucket is full, pick a
  slot (reference: slot 0), evict its occupant tag, install the new tag."  The result is
  the return value, the table and \<open>oldtag\<close>.
\<close>

definition InsertTagToBucket ::
  "tag_type list list \<Rightarrow> size_type \<Rightarrow> tag_type \<Rightarrow> bool \<Rightarrow> tag_type
    \<Rightarrow> bool \<times> tag_type list list \<times> tag_type" where
  "InsertTagToBucket tbl i tag kickout oldtag =
     (let b = tbl ! unat i
      in case find_slot 0 b of
           Some j \<Rightarrow> (True, tbl[unat i := b[j := tag]], oldtag)
         | None \<Rightarrow>
             if kickout then (False, tbl[unat i := b[0 := tag]], b ! 0)
             else (False, tbl, oldtag))"

text \<open>
  Modelled from the spec: \<open>DeleteTagFromBucket(i, tag)\<close> "removes at most one matching
  tag" of bucket \<open>i\<close> and reports whether it removed one.
\<close>

definition DeleteTagFromBucket ::
  "tag_type list list \<Rightarrow> size_type \<Rightarrow> tag_type \<Rightarrow> bool \<times> tag_type list list" where
  "DeleteTagFromBucket tbl i tag =
     (let b = tbl ! unat i
      in case find_slot tag b of
           Some j \<Rightarrow> (True, tbl[unat i := b[j := 0]])
         | None \<Rightarrow> (False, tbl))"

text \<open>
  Modelled from the spec: \<open>FindTagInBuckets(i1, i2, tag1, tag2)\<close>.  "Lookup probes both
  candidate buckets of the queried item's own primary/alternate indices for a matching
  tag": \<open>tag1\<close>, computed with the seed of bucket \<open>i1\<close>, is looked for in bucket \<open>i1\<close>,
  and \<open>tag2\<close> in bucket \<open>i2\<close>.
\<close>

definition FindTagInBuckets ::
  "tag_type list list \<Rightarrow> size_type \<Rightarrow> size_type \<Rightarrow> tag_type \<Rightarrow> tag_type \<Rightarrow> bool" where
  "FindTagInBuckets tbl i1 i2 tag1 tag2 =
     (find_slot tag1 (tbl ! unat i1) \<noteq> None \<or> find_slot tag2 (tbl ! unat i2) \<noteq> None)"

subsection \<open>Index and tag computation\<close>

text \<open>
  \<open>IndexHash\<close>: \<open>const uint32_t hash = item >> 32; return hash % table_->NumBuckets();\<close>
  The C++ is undefined for a filter without buckets; \<open>wf_filter\<close> below excludes it.
\<close>

definition IndexHash :: "CuckooFilter \<Rightarrow> item_type \<Rightarrow> size_type" where
  "IndexHash f item =
     (let hash = (ucast (drop_bit 32 item) :: 32 word)
      in (ucast hash :: size_type) mod NumBuckets (cf_table f))"

text \<open>
  \<open>TagHash(uint32_t hv)\<close>: \<open>tag = hv & ((1ULL << bits_per_item) - 1); tag += (tag == 0);\<close>
\<close>

definition TagHash :: "CuckooFilter \<Rightarrow> 32 word \<Rightarrow> tag_type" where
  "TagHash f hv =
     (let tag = (ucast ((ucast hv :: 64 word) AND (push_bit (bits_per_item f) 1 - 1)) :: 32 word)
      in tag + (if tag = 0 then 1 else 0))"

text \<open>
  \<open>AltIndex(index, item)\<close>: \<open>fp = (item >> hp_) + 1\<close>, then
  \<open>(index ^ (fp * 0xc6a4a7935bd1e995)) % table_->NumBuckets()\<close>.
\<close>

definition AltIndex :: "CuckooFilter \<Rightarrow> size_type \<Rightarrow> item_type \<Rightarrow> size_type" where
  "AltIndex f index item =
     (let fp = drop_bit (cf_hp f) item + 1
      in (index XOR (fp * murmur_const)) mod NumBuckets (cf_table f))"

text \<open>\<open>seeds_.at(i)\<close> throws \<open>std::out_of_range\<close> beyond the end of the vector.\<close>

definition seeds_at :: "CuckooFilter \<Rightarrow> size_type \<Rightarrow> exn + int" where
  "seeds_at f i =
     (if unat i < length (cf_seeds f) then Inr (cf_seeds f ! unat i) else Inl out_of_range)"

text \<open>\<open>GenerateIndexTagHash(item, &index, &tag)\<close>; the console output is left out.\<close>

definition GenerateIndexTagHash ::
  "CuckooFilter \<Rightarrow> item_type \<Rightarrow> exn + (size_type \<times> tag_type)" where
  "GenerateIndexTagHash f item =
     (let index = IndexHash f item
      in case seeds_at f index of
           Inl e \<Rightarrow> Inl e
         | Inr seed \<Rightarrow>
             (let hash = cf_hasher f item seed
              in Inr (index, TagHash f (ucast hash))))"

text \<open>\<open>GenerateTagHashes(item, &i1, &i2, &tag1, &tag2)\<close>.\<close>

definition GenerateTagHashes ::
  "CuckooFilter \<Rightarrow> item_type \<Rightarrow> exn + (size_type \<times> size_type \<times> tag_type \<times> tag_type)" where
  "GenerateTagHashes f item =
     (let i1 = IndexHash f item;
          i2 = AltIndex f i1 item
      in case seeds_at f i1 of
           Inl e \<Rightarrow> Inl e
         | Inr seed1 \<Rightarrow>
             (case seeds_at f i2 of
                Inl e \<Rightarrow> Inl e
              | Inr seed2 \<Rightarrow>
                  (let hash1 = cf_hasher f item seed1;
                       hash2 = cf_hasher f item seed2
                   in Inr (i1, i2, TagHash f (ucast hash1), TagHash f (ucast hash2)))))"

subsection \<open>Construction and the accounting query\<close>

text \<open>
  The constructor \<open>CuckooFilter(max_num_keys, seeds, hp)\<close>: one bucket per seed, no item,
  no victim.  (\<open>max_num_keys\<close> is not used by it.)
\<close>

definition CuckooFilter_init ::
  "(item_type \<Rightarrow> int \<Rightarrow> 64 word) \<Rightarrow> nat \<Rightarrow> int list \<Rightarrow> nat \<Rightarrow> CuckooFilter" where
  "CuckooFilter_init h bits seeds hp =
     \<lparr> cf_table = replicate (length seeds) (replicate kTagsPerBucket 0),
       cf_num_items = 0,
       cf_victim = \<lparr> vc_index = 0, vc_tag = 0, vc_used = False \<rparr>,
       cf_hasher = h,
       cf_seeds = seeds,
       cf_hp = hp,
       bits_per_item = bits \<rparr>"

text \<open>
  The constructor \<open>CuckooFilter(max_num_keys)\<close>: it builds the table, no item, no victim,
  and assigns neither \<open>seeds_\<close>, which stays the empty vector, nor \<open>hp_\<close>.  The bucket
  count, which it computes from \<open>max_num_keys\<close> with \<open>upperpower2\<close> (of a header that is not
  among the sources) and a comparison in floating point, is the parameter \<open>num_buckets\<close>;
  it is at least 1.  \<open>hp\<close> is the value that the member \<open>hp_\<close> happens to hold.
\<close>

definition CuckooFilter_init1 ::
  "(item_type \<Rightarrow> int \<Rightarrow> 64 word) \<Rightarrow> nat \<Rightarrow> nat \<Rightarrow> nat \<Rightarrow> CuckooFilter" where
  "CuckooFilter_init1 h bits num_buckets hp =
     \<lparr> cf_table = replicate num_buckets (replicate kTagsPerBucket 0),
       cf_num_items = 0,
       cf_victim = \<lparr> vc_index = 0, vc_tag = 0, vc_used = False \<rparr>,
       cf_hasher = h,
       cf_seeds = [],
       cf_hp = hp,
       bits_per_item = bits \<rparr>"

text \<open>\<open>Size()\<close> returns \<open>num_items_\<close>.\<close>

definition Size :: "CuckooFilter \<Rightarrow> size_type" where
  "Size f = cf_num_items f"

subsection \<open>Add\<close>

text \<open>
  The loop of \<open>AddImpl\<close>, from the value \<open>count\<close> of its counter on, with the current
  values of \<open>curindex\<close> and \<open>curtag\<close>.  Past the loop the pending pair becomes the victim.
\<close>

function AddImpl_loop ::
  "CuckooFilter \<Rightarrow> nat \<Rightarrow> size_type \<Rightarrow> tag_type \<Rightarrow> Status \<times> CuckooFilter" where
  "AddImpl_loop f count curindex curtag =
     (if count < kMaxCuckooCount then
        (let kickout = (count > 0)
         in case InsertTagToBucket (cf_table f) curindex curtag kickout 0 of
              (True, tbl, oldtag) \<Rightarrow>
                (Ok, f\<lparr>cf_table := tbl, cf_num_items := cf_num_items f + 1\<rparr>)
            | (False, tbl, oldtag) \<Rightarrow>
                (let curtag' = (if kickout then oldtag else curtag);
                     curindex' = AltIndex f curindex (ucast curtag')
                 in AddImpl_loop (f\<lparr>cf_table := tbl\<rparr>) (count + 1) curindex' curtag'))
      else
        (Ok, f\<lparr>cf_victim := \<lparr> vc_index = curindex, vc_tag = curtag, vc_used = True \<rparr>\<rparr>))"
  by pat_completeness auto
termination
  by (relation "measure (\<lambda>(f, count, curindex, curtag). kMaxCuckooCount - count)") auto

declare AddImpl_loop.simps [simp del]

definition AddImpl :: "CuckooFilter \<Rightarrow> size_type \<Rightarrow> tag_type \<Rightarrow> Status \<times> CuckooFilter" where
  "AddImpl f i tag = AddImpl_loop f 0 i tag"

definition Add :: "CuckooFilter \<Rightarrow> item_type \<Rightarrow> exn + (Status \<times> CuckooFilter)" where
  "Add f item =
     (if vc_used (cf_victim f) then Inr (NotEnoughSpace, f)
      else case GenerateIndexTagHash f item of
             Inl e \<Rightarrow> Inl e
           | Inr (i, tag) \<Rightarrow> Inr (AddImpl f i tag))"

subsection \<open>Contain\<close>

text \<open>
  \<open>found\<close> is initialised to \<open>false\<close> and the statement consulting the victim is commented
  out, so the test is \<open>false || FindTagInBuckets(i1, i2, tag1, tag2)\<close>.
\<close>

definition Contain :: "CuckooFilter \<Rightarrow> item_type \<Rightarrow> exn + Status" where
  "Contain f key =
     (let found = False
      in case GenerateTagHashes f key of
           Inl e \<Rightarrow> Inl e
         | Inr (i1, i2, tag1, tag2) \<Rightarrow>
             if found \<or> FindTagInBuckets (cf_table f) i1 i2 tag1 tag2 then Inr Ok
             else Inr NotFound)"

subsection \<open>Delete\<close>

text \<open>The code after the label \<open>TryEliminateVictim\<close>.\<close>

definition TryEliminateVictim :: "CuckooFilter \<Rightarrow> Status \<times> CuckooFilter" where
  "TryEliminateVictim f =
     (if vc_used (cf_victim f) then
        (let f' = f\<lparr>cf_victim := (cf_victim f)\<lparr>vc_used := False\<rparr>\<rparr>;
             i = vc_index (cf_victim f');
             tag = vc_tag (cf_victim f')
         in (Ok, snd (AddImpl f' i tag)))
      else (Ok, f))"

definition Delete :: "CuckooFilter \<Rightarrow> item_type \<Rightarrow> exn + (Status \<times> CuckooFilter)" where
  "Delete f key =
     (case GenerateIndexTagHash f key of
        Inl e \<Rightarrow> Inl e
      | Inr (i1, tag) \<Rightarrow>
          (let i2 = AltIndex f i1 (ucast tag)
           in case DeleteTagFromBucket (cf_table f) i1 tag of
                (True, tbl1) \<Rightarrow>
                  Inr (TryEliminateVictim (f\<lparr>cf_table := tbl1, cf_num_items := cf_num_items f - 1\<rparr>))
              | (False, tbl1) \<Rightarrow>
                  (case DeleteTagFromBucket tbl1 i2 tag of
                     (True, tbl2) \<Rightarrow>
                       Inr (TryEliminateVictim (f\<lparr>cf_table := tbl2, cf_num_items := cf_num_items f - 1\<rparr>))
                   | (False, tbl2) \<Rightarrow>
                       if vc_used (cf_victim f) \<and> tag = vc_tag (cf_victim f) \<and>
                          (i1 = vc_index (cf_victim f) \<or> i2 = vc_index (cf_victim f))
                       then Inr (Ok, f\<lparr>cf_table := tbl2, cf_victim := (cf_victim f)\<lparr>vc_used := False\<rparr>\<rparr>)
                       else Inr (NotFound, f\<lparr>cf_table := tbl2\<rparr>))))"

subsection \<open>Well-formed filters and runs\<close>

text \<open>
  The states that the constructor \<open>CuckooFilter(max_num_keys, seeds, hp)\<close> and the
  operations after it produce from a nonempty seed vector: at least one bucket, one seed
  per bucket, four slots per bucket, shift counts below the width of the shifted type,
  and a slot count that fits \<open>size_t\<close>.
\<close>

definition wf_filter :: "CuckooFilter \<Rightarrow> bool" where
  "wf_filter f \<longleftrightarrow>
     0 < length (cf_table f) \<and> length (cf_table f) < 2 ^ 62 \<and>
     length (cf_seeds f) = length (cf_table f) \<and>
     (\<forall>b \<in> set (cf_table f). length b = kTagsPerBucket) \<and>
     cf_hp f < 64 \<and> bits_per_item f \<le> 32"

datatype filter_op = OpAdd item_type | OpDelete item_type

text \<open>A sequence of calls; an exception ends it.\<close>

fun run_ops :: "CuckooFilter \<Rightarrow> filter_op list \<Rightarrow> exn + CuckooFilter" where
  "run_ops f [] = Inr f"
| "run_ops f (OpAdd x # ops) =
     (case Add f x of Inl e \<Rightarrow> Inl e | Inr (st, f') \<Rightarrow> run_ops f' ops)"
| "run_ops f (OpDelete x # ops) =
     (case Delete f x of Inl e \<Rightarrow> Inl e | Inr (st, f') \<Rightarrow> run_ops f' ops)"

text \<open>The number of occupied slots of the table.\<close>

definition occupied_slots :: "tag_type list list \<Rightarrow> nat" where
  "occupied_slots tbl = (\<Sum>b \<leftarrow> tbl. length (filter (\<lambda>t. t \<noteq> 0) b))"

section \<open>Table engine (cuckoohashtable.hh)\<close>

text \<open>
  Keys are \<open>size_type\<close> values compared with \<open>==\<close> (\<open>KeyEqual = std::equal_to\<close>).
  The template argument \<open>Hash\<close>, the object \<open>hash_fn_\<close>, is the parameter \<open>hf\<close> of every
  function that hashes a key.  \<open>SLOT_PER_BUCKET\<close> has its default value 4.
\<close>

type_synonym key_type = "64 word"

definition slot_per_bucket :: nat where
  "slot_per_bucket = 4"

definition MAX_BFS_PATH_LEN :: nat where
  "MAX_BFS_PATH_LEN = 5"

text \<open>
  \<open>const_pow\<close> and the capacity \<open>MAX_CUCKOO_COUNT\<close> of the BFS queue:
  \<open>2 * ((slot_per_bucket() == 1) ? MAX_BFS_PATH_LEN
        : (const_pow(slot_per_bucket(), MAX_BFS_PATH_LEN) - 1) / (slot_per_bucket() - 1))\<close>.
\<close>

fun const_pow :: "nat \<Rightarrow> nat \<Rightarrow> nat" where
  "const_pow a 0 = 1"
| "const_pow a (Suc b) = a * const_pow a b"

definition MAX_CUCKOO_COUNT :: nat where
  "MAX_CUCKOO_COUNT =
     2 * (if slot_per_bucket = 1 then MAX_BFS_PATH_LEN
          else (const_pow slot_per_bucket MAX_BFS_PATH_LEN - 1) div (slot_per_bucket - 1))"

subsection \<open>The bucket container\<close>

text \<open>
  Modelled from the spec: \<open>bucketcontainer.hh\<close> (class \<open>bucket_container\<close>) is not among
  the sources.  The spec describes a fixed-capacity array of buckets, tracked by its hash
  power; each slot of a bucket "is empty or holds exactly one Key"; the container supports
  an occupancy test, get, set (\<open>setK\<close>) and clear (\<open>eraseK\<close>) of a slot.
\<close>

type_synonym bucket = "key_type option list"

record cuckoo_hashtable =
  ht_num_items :: size_type
  ht_hashpower :: nat
  ht_buckets :: "bucket list"

definition occupied :: "bucket \<Rightarrow> nat \<Rightarrow> bool" where
  "occupied b i = (b ! i \<noteq> None)"

definition bucket_at :: "cuckoo_hashtable \<Rightarrow> size_type \<Rightarrow> bucket" where
  "bucket_at t i = ht_buckets t ! unat i"

definition setK :: "cuckoo_hashtable \<Rightarrow> size_type \<Rightarrow> nat \<Rightarrow> key_type \<Rightarrow> cuckoo_hashtable" where
  "setK t i slot k = t\<lparr>ht_buckets := (ht_buckets t)[unat i := (bucket_at t i)[slot := Some k]]\<rparr>"

definition eraseK :: "cuckoo_hashtable \<Rightarrow> size_type \<Rightarrow> nat \<Rightarrow> cuckoo_hashtable" where
  "eraseK t i slot = t\<lparr>ht_buckets := (ht_buckets t)[unat i := (bucket_at t i)[slot := None]]\<rparr>"

text \<open>
  Modelled from the spec: \<open>bucket::key(i)\<close> of \<open>bucketcontainer.hh\<close>.  The spec gives an
  occupied slot its key and says nothing of what the key storage of an empty slot reads
  as, which the lookup of the source does read (it compares \<open>b.key(i)\<close> of every slot).
  That value is a parameter of the lookup: \<open>ek i s\<close> is what slot \<open>s\<close> of bucket \<open>i\<close>
  reads as while it is empty, and \<open>key_at (ek i) b s\<close> is \<open>b.key(s)\<close> for the bucket
  \<open>b\<close> at index \<open>i\<close>.
\<close>

type_synonym empty_read = "size_type \<Rightarrow> nat \<Rightarrow> key_type"

definition key_at :: "(nat \<Rightarrow> key_type) \<Rightarrow> bucket \<Rightarrow> nat \<Rightarrow> key_type" where
  "key_at e b s = (case b ! s of Some k \<Rightarrow> k | None \<Rightarrow> e s)"

text \<open>
  The constructor, from the hash power that \<open>reserve_calc\<close> hands to the container:
  \<open>2 ^ hp\<close> empty buckets and no item.
\<close>

definition cuckoo_hashtable_init :: "nat \<Rightarrow> cuckoo_hashtable" where
  "cuckoo_hashtable_init hp =
     \<lparr> ht_num_items = 0, ht_hashpower = hp,
       ht_buckets = replicate (2 ^ hp) (replicate slot_per_bucket None) \<rparr>"

text \<open>The states on which the C++ is defined.\<close>

definition wf_table :: "cuckoo_hashtable \<Rightarrow> bool" where
  "wf_table t \<longleftrightarrow>
     ht_hashpower t < 62 \<and> length (ht_buckets t) = 2 ^ ht_hashpower t \<and>
     (\<forall>b \<in> set (ht_buckets t). length b = slot_per_bucket)"

subsection \<open>Accounting and bucket computation\<close>

definition hashpower :: "cuckoo_hashtable \<Rightarrow> nat" where
  "hashpower t = ht_hashpower t"

text \<open>\<open>size()\<close> returns \<open>num_items_\<close>.\<close>

definition size_ht :: "cuckoo_hashtable \<Rightarrow> size_type" where
  "size_ht t = ht_num_items t"

type_synonym hasher = "key_type \<Rightarrow> size_type"

definition hashed_key :: "hasher \<Rightarrow> key_type \<Rightarrow> size_type" where
  "hashed_key hf key = hf key"

record TwoBuckets =
  tb_i1 :: size_type
  tb_i2 :: size_type

definition compute_buckets :: "cuckoo_hashtable \<Rightarrow> size_type \<Rightarrow> TwoBuckets" where
  "compute_buckets t hv =
     (let hp = hashpower t;
          i1 = index_hash hp hv;
          i2 = alt_index hp hv i1
      in \<lparr> tb_i1 = i1, tb_i2 = i2 \<rparr>)"

datatype cuckoo_status =
  ok | failure | failure_key_not_found | failure_key_duplicated
  | failure_table_full | failure_under_expansion

record table_position =
  tp_index :: size_type
  tp_slot :: size_type
  tp_status :: cuckoo_status

subsection \<open>Lookup\<close>

text \<open>
  \<open>try_read_from_bucket\<close>: the first slot \<open>i\<close> with \<open>key_eq()(b.key(i), key)\<close>, or \<open>-1\<close>.
  The loop does not test \<open>occupied\<close>: it compares what every slot reads as, the empty
  ones too.  \<open>e\<close> is what the empty slots of this bucket read as.
\<close>

definition try_read_from_bucket :: "(nat \<Rightarrow> key_type) \<Rightarrow> bucket \<Rightarrow> key_type \<Rightarrow> int" where
  "try_read_from_bucket e b key =
     (case find (\<lambda>i. key_at e b i = key) [0..<slot_per_bucket] of
        Some i \<Rightarrow> int i
      | None \<Rightarrow> - 1)"

text \<open>\<open>cuckoo_find\<close>; both successful returns carry \<open>i1\<close>, as the source has it.\<close>

definition cuckoo_find ::
  "empty_read \<Rightarrow> cuckoo_hashtable \<Rightarrow> key_type \<Rightarrow> size_type \<Rightarrow> size_type \<Rightarrow> table_position" where
  "cuckoo_find ek t key i1 i2 =
     (let slot = try_read_from_bucket (ek i1) (bucket_at t i1) key
      in if slot \<noteq> - 1 then \<lparr> tp_index = i1, tp_slot = of_int slot, tp_status = ok \<rparr>
         else
           (let slot = try_read_from_bucket (ek i2) (bucket_at t i2) key
            in if slot \<noteq> - 1 then \<lparr> tp_index = i1, tp_slot = of_int slot, tp_status = ok \<rparr>
               else \<lparr> tp_index = 0, tp_slot = 0, tp_status = failure_key_not_found \<rparr>))"

text \<open>
  \<open>find\<close> returns \<open>buckets_[pos.index].key(pos.slot)\<close> or throws \<open>std::out_of_range\<close>.
\<close>

definition find_ht :: "hasher \<Rightarrow> empty_read \<Rightarrow> cuckoo_hashtable \<Rightarrow> key_type \<Rightarrow> exn + key_type" where
  "find_ht hf ek t key =
     (let hv = hashed_key hf key;
          b = compute_buckets t hv;
          pos = cuckoo_find ek t key (tb_i1 b) (tb_i2 b)
      in if tp_status pos = ok then
           Inr (key_at (ek (tp_index pos)) (bucket_at t (tp_index pos)) (unat (tp_slot pos)))
         else Inl out_of_range)"

subsection \<open>The BFS queue\<close>

record b_slot =
  bs_bucket :: size_type
  bs_pathcode :: "16 word"
  bs_depth :: int

text \<open>
  \<open>b_queue\<close>: \<open>bq_slots\<close> holds the entries \<open>slots_[0]\<close> to \<open>slots_[last_ - 1]\<close> written
  so far, so \<open>last_\<close> is its length; \<open>bq_first\<close> is \<open>first_\<close>.
\<close>

record b_queue =
  bq_slots :: "b_slot list"
  bq_first :: nat

definition bq_last :: "b_queue \<Rightarrow> nat" where
  "bq_last q = length (bq_slots q)"

definition b_queue_init :: b_queue where
  "b_queue_init = \<lparr> bq_slots = [], bq_first = 0 \<rparr>"

definition empty_q :: "b_queue \<Rightarrow> bool" where
  "empty_q q = (bq_first q = bq_last q)"

definition full_q :: "b_queue \<Rightarrow> bool" where
  "full_q q = (bq_last q = MAX_CUCKOO_COUNT)"

text \<open>\<open>enqueue\<close>: \<open>assert(!full()); slots_[last_++] = x;\<close>\<close>

definition enqueue :: "b_queue \<Rightarrow> b_slot \<Rightarrow> exn + b_queue" where
  "enqueue q x =
     (if full_q q then Inl assertion_failed
      else Inr (q\<lparr>bq_slots := bq_slots q @ [x]\<rparr>))"

text \<open>\<open>dequeue\<close>: \<open>assert(!empty()); assert(first_ < last_); return slots_[first_++];\<close>\<close>

definition dequeue :: "b_queue \<Rightarrow> exn + (b_slot \<times> b_queue)" where
  "dequeue q =
     (if empty_q q \<or> \<not> bq_first q < bq_last q then Inl assertion_failed
      else Inr (bq_slots q ! bq_first q, q\<lparr>bq_first := bq_first q + 1\<rparr>))"

subsection \<open>slot search\<close>

text \<open>
  The \<open>for\<close> loop of \<open>slot_search\<close> over the slots of the bucket of \<open>x\<close>, for the
  remaining values of its counter \<open>i\<close>.  It ends the search with an empty slot
  (\<open>Some\<close>) or hands the queue back.  The constructor of \<open>b_slot\<close> asserts
  \<open>d < MAX_BFS_PATH_LEN\<close>, which the test \<open>x.depth < MAX_BFS_PATH_LEN - 1\<close> before it
  ensures.
\<close>

fun scan_slots ::
  "cuckoo_hashtable \<Rightarrow> nat \<Rightarrow> b_slot \<Rightarrow> nat \<Rightarrow> nat list \<Rightarrow> b_queue
    \<Rightarrow> exn + (b_slot option \<times> b_queue)" where
  "scan_slots t hp x starting_slot [] q = Inr (None, q)"
| "scan_slots t hp x starting_slot (i # rest) q =
     (let slot = (starting_slot + i) mod slot_per_bucket
      in case bucket_at t (bs_bucket x) ! slot of
           None \<Rightarrow>
             Inr (Some (x\<lparr>bs_pathcode := bs_pathcode x * of_nat slot_per_bucket + of_nat slot\<rparr>), q)
         | Some hv \<Rightarrow>
             if bs_depth x < int MAX_BFS_PATH_LEN - 1 then
               (if full_q q then Inl assertion_failed
                else
                  (let y = \<lparr> bs_bucket = alt_index hp hv (bs_bucket x),
                             bs_pathcode = bs_pathcode x * of_nat slot_per_bucket + of_nat slot,
                             bs_depth = bs_depth x + 1 \<rparr>
                   in case enqueue q y of
                        Inl e \<Rightarrow> Inl e
                      | Inr q' \<Rightarrow> scan_slots t hp x starting_slot rest q'))
             else scan_slots t hp x starting_slot rest q)"

text \<open>
  The \<open>while (!q.empty())\<close> loop of \<open>slot_search\<close>.  The result carries the queue, so
  that the number of entries ever enqueued can be read off.
\<close>

partial_function (option) slot_search_loop ::
  "cuckoo_hashtable \<Rightarrow> nat \<Rightarrow> b_queue \<Rightarrow> (exn + (b_slot \<times> b_queue)) option" where
  "slot_search_loop t hp q =
     (if empty_q q then
        Some (Inr (\<lparr> bs_bucket = 0, bs_pathcode = 0, bs_depth = - 1 \<rparr>, q))
      else
        (case dequeue q of
           Inl e \<Rightarrow> Some (Inl e)
         | Inr (x, q1) \<Rightarrow>
             (let starting_slot = unat (bs_pathcode x) mod slot_per_bucket
              in case scan_slots t hp x starting_slot [0..<slot_per_bucket] q1 of
                   Inl e \<Rightarrow> Some (Inl e)
                 | Inr (Some x', q2) \<Rightarrow> Some (Inr (x', q2))
                 | Inr (None, q2) \<Rightarrow> slot_search_loop t hp q2)))"

declare slot_search_loop.simps [code]

definition slot_search ::
  "cuckoo_hashtable \<Rightarrow> nat \<Rightarrow> size_type \<Rightarrow> size_type \<Rightarrow> (exn + (b_slot \<times> b_queue)) option" where
  "slot_search t hp i1 i2 =
     (case enqueue b_queue_init \<lparr> bs_bucket = i1, bs_pathcode = 0, bs_depth = 0 \<rparr> of
        Inl e \<Rightarrow> Some (Inl e)
      | Inr q1 \<Rightarrow>
          (case enqueue q1 \<lparr> bs_bucket = i2, bs_pathcode = 1, bs_depth = 0 \<rparr> of
             Inl e \<Rightarrow> Some (Inl e)
           | Inr q2 \<Rightarrow> slot_search_loop t hp q2))"

subsection \<open>Cuckoo paths\<close>

record CuckooRecord =
  cr_bucket :: size_type
  cr_slot :: size_type
  cr_hv :: size_type

text \<open>
  \<open>CuckooRecords\<close> is an array of \<open>MAX_BFS_PATH_LEN\<close> records.  \<open>run_cuckoo\<close> declares it
  without initialising it; the model starts it with zeros.  \<open>cuckoopath_search\<close> writes
  every field of the records 0 to \<open>depth\<close> before \<open>cuckoopath_move\<close> or itself reads it.
\<close>

type_synonym CuckooRecords = "CuckooRecord list"

definition CuckooRecords_init :: CuckooRecords where
  "CuckooRecords_init =
     replicate MAX_BFS_PATH_LEN \<lparr> cr_bucket = 0, cr_slot = 0, cr_hv = 0 \<rparr>"

text \<open>
  The first loop of \<open>cuckoopath_search\<close>, \<open>for (int i = x.depth; i >= 0; i--)\<close>, from the
  value \<open>i\<close> of its counter down; it returns the path and what is left of the pathcode.
\<close>

fun decode_slots :: "CuckooRecords \<Rightarrow> 16 word \<Rightarrow> nat \<Rightarrow> CuckooRecords \<times> 16 word" where
  "decode_slots path pathcode 0 =
     (path[0 := (path ! 0)\<lparr>cr_slot := ucast (pathcode mod of_nat slot_per_bucket)\<rparr>],
      pathcode div of_nat slot_per_bucket)"
| "decode_slots path pathcode (Suc i) =
     decode_slots
       (path[Suc i := (path ! Suc i)\<lparr>cr_slot := ucast (pathcode mod of_nat slot_per_bucket)\<rparr>])
       (pathcode div of_nat slot_per_bucket) i"

text \<open>The last loop of \<open>cuckoopath_search\<close>, \<open>for (int i = 1; i <= x.depth; ++i)\<close>.\<close>

function follow_path ::
  "hasher \<Rightarrow> cuckoo_hashtable \<Rightarrow> nat \<Rightarrow> CuckooRecords \<Rightarrow> nat \<Rightarrow> nat \<Rightarrow> exn + (int \<times> CuckooRecords)" where
  "follow_path hf t hp path i depth =
     (if i \<le> depth then
        (let prev = path ! (i - 1)
         in if \<not> (cr_bucket prev = index_hash hp (cr_hv prev) \<or>
                   cr_bucket prev = alt_index hp (cr_hv prev) (index_hash hp (cr_hv prev)))
            then Inl assertion_failed
            else
              (let path1 = path[i := (path ! i)\<lparr>cr_bucket := alt_index hp (cr_hv prev) (cr_bucket prev)\<rparr>];
                   curr = path1 ! i
               in case bucket_at t (cr_bucket curr) ! unat (cr_slot curr) of
                    None \<Rightarrow> Inr (int i, path1)
                  | Some k \<Rightarrow>
                      follow_path hf t hp (path1[i := curr\<lparr>cr_hv := hashed_key hf k\<rparr>]) (i + 1) depth))
      else Inr (int depth, path))"
  by pat_completeness auto
termination
  by (relation "measure (\<lambda>(hf, t, hp, path, i, depth). depth + 1 - i)") auto

declare follow_path.simps [simp del]

text \<open>\<open>cuckoopath_search\<close>: the depth of the path found (\<open>-1\<close> for none) and the path.\<close>

definition cuckoopath_search ::
  "hasher \<Rightarrow> cuckoo_hashtable \<Rightarrow> nat \<Rightarrow> CuckooRecords \<Rightarrow> size_type \<Rightarrow> size_type
    \<Rightarrow> (exn + (int \<times> CuckooRecords)) option" where
  "cuckoopath_search hf t hp cuckoo_path i1 i2 =
     (case slot_search t hp i1 i2 of
        None \<Rightarrow> None
      | Some (Inl e) \<Rightarrow> Some (Inl e)
      | Some (Inr (x, q)) \<Rightarrow>
          if bs_depth x = - 1 then Some (Inr (- 1, cuckoo_path))
          else
            (case decode_slots cuckoo_path (bs_pathcode x) (nat (bs_depth x)) of
               (path1, pathcode) \<Rightarrow>
                 if pathcode \<noteq> 0 \<and> pathcode \<noteq> 1 then Some (Inl assertion_failed)
                 else
                   (let path2 = path1[0 := (path1 ! 0)\<lparr>cr_bucket := (if pathcode = 0 then i1 else i2)\<rparr>];
                        first = path2 ! 0
                    in case bucket_at t (cr_bucket first) ! unat (cr_slot first) of
                         None \<Rightarrow> Some (Inr (0, path2))
                       | Some k \<Rightarrow>
                           Some (follow_path hf t hp (path2[0 := first\<lparr>cr_hv := hashed_key hf k\<rparr>])
                                   1 (nat (bs_depth x))))))"

text \<open>
  The \<open>while (depth > 0)\<close> loop of \<open>cuckoopath_move\<close>; \<open>trail\<close> is the stack, its top
  first.  The console output is left out.
\<close>

type_synonym trail = "(size_type \<times> size_type) list"

fun move_loop ::
  "hasher \<Rightarrow> cuckoo_hashtable \<Rightarrow> CuckooRecords \<Rightarrow> nat \<Rightarrow> trail \<Rightarrow> bool \<times> cuckoo_hashtable \<times> trail" where
  "move_loop hf t cuckoo_path 0 tr = (True, t, tr)"
| "move_loop hf t cuckoo_path (Suc d) tr =
     (let from = cuckoo_path ! d;
          to = cuckoo_path ! Suc d;
          fs = unat (cr_slot from);
          ts = unat (cr_slot to);
          fb = bucket_at t (cr_bucket from);
          tb = bucket_at t (cr_bucket to)
      in case fb ! fs of
           None \<Rightarrow> (False, t, tr)
         | Some k \<Rightarrow>
             if occupied tb ts \<or> hashed_key hf k \<noteq> cr_hv from then (False, t, tr)
             else
               (let t1 = setK t (cr_bucket to) ts k;
                    t2 = eraseK t1 (cr_bucket from) fs
                in move_loop hf t2 cuckoo_path d ((cr_bucket to, cr_slot to) # tr)))"

definition cuckoopath_move ::
  "hasher \<Rightarrow> cuckoo_hashtable \<Rightarrow> nat \<Rightarrow> CuckooRecords \<Rightarrow> nat \<Rightarrow> TwoBuckets \<Rightarrow> trail
    \<Rightarrow> exn + (bool \<times> cuckoo_hashtable \<times> trail)" where
  "cuckoopath_move hf t hp cuckoo_path depth b tr =
     (if depth = 0 then
        (let bucket_i = cr_bucket (cuckoo_path ! 0)
         in if \<not> (bucket_i = tb_i1 b \<or> bucket_i = tb_i2 b) then Inl assertion_failed
            else if \<not> occupied (bucket_at t bucket_i) (unat (cr_slot (cuckoo_path ! 0)))
            then Inr (True, t, tr)
            else Inr (False, t, tr))
      else Inr (move_loop hf t cuckoo_path depth tr))"

subsection \<open>run cuckoo\<close>

text \<open>
  The \<open>while (!done)\<close> loop of \<open>run_cuckoo\<close>.  A failed move starts the search again, with
  no bound on the number of rounds: the loop need not end, and \<open>None\<close> is the run that
  does not.  The result is the status, \<open>insert_bucket\<close>, \<open>insert_slot\<close> (both as the
  caller initialised them, 0, when nothing is stored), the table and the trail.
\<close>

partial_function (option) run_cuckoo_loop ::
  "hasher \<Rightarrow> cuckoo_hashtable \<Rightarrow> nat \<Rightarrow> CuckooRecords \<Rightarrow> TwoBuckets \<Rightarrow> trail
    \<Rightarrow> (exn + (cuckoo_status \<times> size_type \<times> size_type \<times> cuckoo_hashtable \<times> trail)) option" where
  "run_cuckoo_loop hf t hp cuckoo_path b tr =
     (case cuckoopath_search hf t hp cuckoo_path (tb_i1 b) (tb_i2 b) of
        None \<Rightarrow> None
      | Some (Inl e) \<Rightarrow> Some (Inl e)
      | Some (Inr (depth, path1)) \<Rightarrow>
          if depth < 0 then Some (Inr (failure, 0, 0, t, tr))
          else
            (case cuckoopath_move hf t hp path1 (nat depth) b tr of
               Inl e \<Rightarrow> Some (Inl e)
             | Inr (moved, t1, tr1) \<Rightarrow>
                 if moved then
                   (let insert_bucket = cr_bucket (path1 ! 0);
                        insert_slot = cr_slot (path1 ! 0)
                    in if \<not> (insert_bucket = tb_i1 b \<or> insert_bucket = tb_i2 b) then
                         Some (Inl assertion_failed)
                       else if occupied (bucket_at t1 insert_bucket) (unat insert_slot) then
                         Some (Inl assertion_failed)
                       else Some (Inr (ok, insert_bucket, insert_slot, t1, tr1)))
                 else run_cuckoo_loop hf t1 hp path1 b tr1))"

declare run_cuckoo_loop.simps [code]

definition run_cuckoo ::
  "hasher \<Rightarrow> cuckoo_hashtable \<Rightarrow> TwoBuckets \<Rightarrow> trail
    \<Rightarrow> (exn + (cuckoo_status \<times> size_type \<times> size_type \<times> cuckoo_hashtable \<times> trail)) option" where
  "run_cuckoo hf t b tr = run_cuckoo_loop hf t (hashpower t) CuckooRecords_init b tr"

subsection \<open>Insertion\<close>

text \<open>
  The loop of \<open>try_find_insert_bucket\<close> for the remaining slots, with the current value
  of \<open>slot\<close>: a duplicate ends it with \<open>false\<close>; every empty slot overwrites \<open>slot\<close>, so
  the last empty slot is the one reported.
\<close>

fun try_find_insert_loop :: "bucket \<Rightarrow> key_type \<Rightarrow> nat list \<Rightarrow> int \<Rightarrow> bool \<times> int" where
  "try_find_insert_loop b key [] slot = (True, slot)"
| "try_find_insert_loop b key (i # rest) slot =
     (case b ! i of
        Some k \<Rightarrow>
          if k = key then (False, int i)
          else try_find_insert_loop b key rest slot
      | None \<Rightarrow> try_find_insert_loop b key rest (int i))"

definition try_find_insert_bucket :: "bucket \<Rightarrow> size_type \<Rightarrow> key_type \<Rightarrow> bool \<times> int" where
  "try_find_insert_bucket b hv key =
     try_find_insert_loop b key [0..<slot_per_bucket] (- 1)"

text \<open>\<open>add_to_bucket\<close> calls \<open>setK\<close>.\<close>

definition add_to_bucket :: "cuckoo_hashtable \<Rightarrow> size_type \<Rightarrow> size_type \<Rightarrow> key_type \<Rightarrow> cuckoo_hashtable" where
  "add_to_bucket t bucket_ind slot key = setK t bucket_ind (unat slot) key"

text \<open>\<open>cuckoo_insert\<close>; the console output is left out.\<close>

definition cuckoo_insert ::
  "hasher \<Rightarrow> cuckoo_hashtable \<Rightarrow> size_type \<Rightarrow> TwoBuckets \<Rightarrow> key_type \<Rightarrow> trail
    \<Rightarrow> (exn + (table_position \<times> cuckoo_hashtable \<times> trail)) option" where
  "cuckoo_insert hf t hv b key tr =
     (case try_find_insert_bucket (bucket_at t (tb_i1 b)) hv key of
        (r1, res1) \<Rightarrow>
          if \<not> r1 then
            Some (Inr (\<lparr> tp_index = tb_i1 b, tp_slot = of_int res1,
                          tp_status = failure_key_duplicated \<rparr>, t, tr))
          else
            (case try_find_insert_bucket (bucket_at t (tb_i2 b)) hv key of
               (r2, res2) \<Rightarrow>
                 if \<not> r2 then
                   Some (Inr (\<lparr> tp_index = tb_i2 b, tp_slot = of_int res2,
                                 tp_status = failure_key_duplicated \<rparr>, t, tr))
                 else if res1 \<noteq> - 1 then
                   Some (Inr (\<lparr> tp_index = tb_i1 b, tp_slot = of_int res1, tp_status = ok \<rparr>, t, tr))
                 else if res2 \<noteq> - 1 then
                   Some (Inr (\<lparr> tp_index = tb_i2 b, tp_slot = of_int res2, tp_status = ok \<rparr>, t, tr))
                 else
                   (case run_cuckoo hf t b tr of
                      None \<Rightarrow> None
                    | Some (Inl e) \<Rightarrow> Some (Inl e)
                    | Some (Inr (st, insert_bucket, insert_slot, t1, tr1)) \<Rightarrow>
                        if st = ok then
                          (if occupied (bucket_at t1 insert_bucket) (unat insert_slot) then
                             Some (Inl assertion_failed)
                           else if \<not> (insert_bucket = index_hash (hashpower t1) hv \<or>
                                        insert_bucket =
                                          alt_index (hashpower t1) hv (index_hash (hashpower t1) hv))
                           then Some (Inl assertion_failed)
                           else Some (Inr (\<lparr> tp_index = insert_bucket, tp_slot = insert_slot,
                                               tp_status = ok \<rparr>, t1, tr1)))
                        else if st \<noteq> failure then Some (Inl assertion_failed)
                        else Some (Inr (\<lparr> tp_index = 0, tp_slot = 0,
                                            tp_status = failure_table_full \<rparr>, t1, tr1)))))"

text \<open>
  \<open>cuckoo_insert_loop\<close>: every branch of the \<open>switch\<close> leaves the \<open>while (true)\<close> loop in
  its first round: \<open>ok\<close> and \<open>failure_key_duplicated\<close> return the position,
  \<open>failure_table_full\<close> throws \<open>std::out_of_range\<close>, any other status fails
  \<open>assert(false)\<close>.
\<close>

definition cuckoo_insert_loop ::
  "hasher \<Rightarrow> cuckoo_hashtable \<Rightarrow> size_type \<Rightarrow> TwoBuckets \<Rightarrow> key_type \<Rightarrow> trail
    \<Rightarrow> (exn + (table_position \<times> cuckoo_hashtable \<times> trail)) option" where
  "cuckoo_insert_loop hf t hv b key tr =
     (case cuckoo_insert hf t hv b key tr of
        None \<Rightarrow> None
      | Some (Inl e) \<Rightarrow> Some (Inl e)
      | Some (Inr (pos, t1, tr1)) \<Rightarrow>
          if tp_status pos = ok \<or> tp_status pos = failure_key_duplicated then
            Some (Inr (pos, t1, tr1))
          else if tp_status pos = failure_table_full then Some (Inl out_of_range)
          else Some (Inl assertion_failed))"

text \<open>
  \<open>paired_insert\<close>: the location of the key and the table, with the trail of moved
  keys under the location.
\<close>

definition paired_insert ::
  "hasher \<Rightarrow> cuckoo_hashtable \<Rightarrow> key_type \<Rightarrow> (exn + (trail \<times> cuckoo_hashtable)) option" where
  "paired_insert hf t key =
     (let hv = hashed_key hf key;
          b = compute_buckets t hv
      in case cuckoo_insert_loop hf t hv b key [] of
           None \<Rightarrow> None
         | Some (Inl e) \<Rightarrow> Some (Inl e)
         | Some (Inr (pos, t1, cuckoo_trail)) \<Rightarrow>
             (let t2 = (if tp_status pos = ok
                        then (add_to_bucket t1 (tp_index pos) (tp_slot pos) key)
                               \<lparr>ht_num_items := ht_num_items t1 + 1\<rparr>
                        else t1)
              in Some (Inr ((tp_index pos, tp_slot pos) # cuckoo_trail, t2))))"

text \<open>
  \<open>insert\<close>: the location of the key and the table.  The source calls
  \<open>cuckoo_insert_loop(hv, b, key)\<close> without the trail that the only definition of that
  function takes; the model passes the empty trail of \<open>paired_insert\<close> and drops it.
\<close>

definition insert_ht ::
  "hasher \<Rightarrow> cuckoo_hashtable \<Rightarrow> key_type \<Rightarrow> (exn + ((size_type \<times> size_type) \<times> cuckoo_hashtable)) option" where
  "insert_ht hf t key =
     (let hv = hashed_key hf key;
          b = compute_buckets t hv
      in case cuckoo_insert_loop hf t hv b key [] of
           None \<Rightarrow> None
         | Some (Inl e) \<Rightarrow> Some (Inl e)
         | Some (Inr (pos, t1, tr1)) \<Rightarrow>
             (let t2 = (if tp_status pos = ok
                        then (add_to_bucket t1 (tp_index pos) (tp_slot pos) key)
                               \<lparr>ht_num_items := ht_num_items t1 + 1\<rparr>
                        else t1)
              in Some (Inr ((tp_index pos, tp_slot pos), t2))))"

text \<open>A sequence of \<open>insert\<close> calls; an exception or a call that does not return ends it.\<close>

fun insert_all :: "hasher \<Rightarrow> cuckoo_hashtable \<Rightarrow> key_type list \<Rightarrow> (exn + cuckoo_hashtable) option" where
  "insert_all hf t [] = Some (Inr t)"
| "insert_all hf t (k # ks) =
     (case insert_ht hf t k of
        None \<Rightarrow> None
      | Some (Inl e) \<Rightarrow> Some (Inl e)
      | Some (Inr (loc, t1)) \<Rightarrow> insert_all hf t1 ks)"

section \<open>Concrete instances\<close>

text \<open>A keyed hasher for the filter: the item, xor-ed with the seed.\<close>

definition xor_hasher :: "item_type \<Rightarrow> int \<Rightarrow> 64 word" where
  "xor_hasher item seed = item XOR word_of_int seed"

text \<open>
  A filter of twelve buckets (not a power of two, which the modulo indexing admits) and
  one of four buckets, both with all seeds zero.
\<close>

definition filter12 :: CuckooFilter where
  "filter12 = CuckooFilter_init xor_hasher 8 (replicate 12 0) 4"

definition filter4 :: CuckooFilter where
  "filter4 = CuckooFilter_init xor_hasher 8 (replicate 4 0) 2"

definition filter1 :: CuckooFilter where
  "filter1 = CuckooFilter_init xor_hasher 8 [0] 0"

text \<open>\<open>filter1\<close> after four and after five insertions.\<close>

definition filter1_four :: CuckooFilter where
  "filter1_four =
     \<lparr> cf_table = [[1, 2, 3, 4]], cf_num_items = 4,
       cf_victim = \<lparr> vc_index = 0, vc_tag = 0, vc_used = False \<rparr>,
       cf_hasher = xor_hasher, cf_seeds = [0], cf_hp = 0, bits_per_item = 8 \<rparr>"

definition filter1_full :: CuckooFilter where
  "filter1_full =
     \<lparr> cf_table = [[5, 2, 3, 4]], cf_num_items = 4,
       cf_victim = \<lparr> vc_index = 0, vc_tag = 1, vc_used = True \<rparr>,
       cf_hasher = xor_hasher, cf_seeds = [0], cf_hp = 0, bits_per_item = 8 \<rparr>"

text \<open>A filter of 32 buckets, hash power 5, fingerprints of 8 bits, all seeds zero.\<close>

definition filter32 :: CuckooFilter where
  "filter32 = CuckooFilter_init xor_hasher 8 (replicate 32 0) 5"

text \<open>Empty slots that read as zero, as those of zero-initialised storage do.\<close>

definition zero_slots :: empty_read where
  "zero_slots i s = 0"

text \<open>
  Hash functors for the table: the identity (what \<open>std::hash\<close> is for integers in the
  usual standard libraries) and multiplication by three.
\<close>

definition id_hash :: hasher where
  "id_hash k = k"

definition times3 :: hasher where
  "times3 k = 3 * k"

text \<open>
  The table of hash power 1 after \<open>insert\<close> of 1, 3, 5, 7 with \<open>times3\<close>, and the cuckoo
  path that \<open>cuckoopath_search\<close> computes in it for the buckets of key 9.
\<close>

definition table_t3 :: cuckoo_hashtable where
  "table_t3 =
     \<lparr> ht_num_items = 4, ht_hashpower = 1,
       ht_buckets = [[None, None, None, None], [Some 7, Some 5, Some 3, Some 1]] \<rparr>"

definition path_t3 :: CuckooRecords where
  "path_t3 =
     [\<lparr> cr_bucket = 1, cr_slot = 1, cr_hv = 15 \<rparr>,
      \<lparr> cr_bucket = 1, cr_slot = 1, cr_hv = 15 \<rparr>,
      \<lparr> cr_bucket = 0, cr_slot = 0, cr_hv = 0 \<rparr>,
      \<lparr> cr_bucket = 0, cr_slot = 0, cr_hv = 0 \<rparr>,
      \<lparr> cr_bucket = 0, cr_slot = 0, cr_hv = 0 \<rparr>]"

text \<open>The table of hash power 1 after \<open>insert\<close> of 0, 4, 8, 12, 16 with \<open>id_hash\<close>.\<close>

definition table_c2 :: cuckoo_hashtable where
  "table_c2 =
     \<lparr> ht_num_items = 5, ht_hashpower = 1,
       ht_buckets = [[Some 12, Some 8, Some 4, Some 0], [None, None, None, Some 16]] \<rparr>"


section \<open>Notions for the table engine\<close>

text \<open>A bucket holds a key in one of its slots.\<close>

definition holds_key :: "bucket \<Rightarrow> key_type \<Rightarrow> bool" where
  "holds_key b key \<longleftrightarrow> (\<exists>s < slot_per_bucket. b ! s = Some key)"



text \<open>
  The size of the full search tree below a queue entry: an entry of depth
  \<open>MAX_BFS_PATH_LEN - 1\<close> has no children, any other entry has one child per slot.
\<close>

fun tree_size :: "nat \<Rightarrow> nat" where
  "tree_size 0 = 1"
| "tree_size (Suc k) = 1 + slot_per_bucket * tree_size k"

definition weight :: "b_slot \<Rightarrow> nat" where
  "weight x = tree_size (nat (int MAX_BFS_PATH_LEN - 1 - bs_depth x))"

text \<open>The size of the search tree below each child of a queue entry (0 without children).\<close>

definition child_weight :: "b_slot \<Rightarrow> nat" where
  "child_weight x =
     (if bs_depth x < int MAX_BFS_PATH_LEN - 1
      then tree_size (nat (int MAX_BFS_PATH_LEN - 2 - bs_depth x)) else 0)"

text \<open>
  The potential of a queue: the entries taken out, plus the sizes of the search trees
  below the entries still waiting.  It bounds the number of entries ever enqueued.
\<close>

definition potential :: "b_queue \<Rightarrow> nat" where
  "potential q = bq_first q + sum_list (map weight (drop (bq_first q) (bq_slots q)))"

text \<open>Every bucket index in the queue is below the bucket count.\<close>

definition valid_q :: "nat \<Rightarrow> b_queue \<Rightarrow> bool" where
  "valid_q hp q \<longleftrightarrow> (\<forall>y \<in> set (bq_slots q). unat (bs_bucket y) < 2 ^ hp)"

text \<open>A key is stored in a slot of a bucket of the table.\<close>

definition stored :: "cuckoo_hashtable \<Rightarrow> size_type \<Rightarrow> nat \<Rightarrow> key_type \<Rightarrow> bool" where
  "stored t i s k \<longleftrightarrow>
     unat i < 2 ^ ht_hashpower t \<and> s < slot_per_bucket \<and> bucket_at t i ! s = Some k"

text \<open>A bucket index is one of the two buckets of a hash value.\<close>

definition candidate :: "nat \<Rightarrow> size_type \<Rightarrow> size_type \<Rightarrow> bool" where
  "candidate hp hv i \<longleftrightarrow> i = index_hash hp hv \<or> i = alt_index hp hv (index_hash hp hv)"

text \<open>
  The invariant of the table: it is well formed, every stored key is in one of the two
  buckets of its hash value, and no key is stored twice.
\<close>

definition table_inv :: "hasher \<Rightarrow> cuckoo_hashtable \<Rightarrow> bool" where
  "table_inv hf t \<longleftrightarrow>
     wf_table t \<and>
     (\<forall>i s k. stored t i s k \<longrightarrow> candidate (ht_hashpower t) (hashed_key hf k) i) \<and>
     (\<forall>i s i' s' k. stored t i s k \<longrightarrow> stored t i' s' k \<longrightarrow> i' = i \<and> s' = s)"

text \<open>Every key stored in the first table is stored in the second.\<close>

definition keys_sub :: "cuckoo_hashtable \<Rightarrow> cuckoo_hashtable \<Rightarrow> bool" where
  "keys_sub t' t \<longleftrightarrow> (\<forall>i s k. stored t' i s k \<longrightarrow> (\<exists>i' s'. stored t i' s' k))"

text \<open>The depth of a queue entry is that of a path of at most \<open>MAX_BFS_PATH_LEN\<close> records.\<close>

definition depth_ok :: "b_slot \<Rightarrow> bool" where
  "depth_ok y \<longleftrightarrow> 0 \<le> bs_depth y \<and> bs_depth y < int MAX_BFS_PATH_LEN"

text \<open>
  The records 0 to \<open>d\<close> of a cuckoo path name slots of the table, and each bucket after the
  first is the alternate bucket of the record before it.
\<close>

definition path_ok :: "nat \<Rightarrow> CuckooRecords \<Rightarrow> nat \<Rightarrow> bool" where
  "path_ok hp path d \<longleftrightarrow>
     d < length path \<and>
     (\<forall>j \<le> d. unat (cr_bucket (path ! j)) < 2 ^ hp \<and>
               unat (cr_slot (path ! j)) < slot_per_bucket) \<and>
     (\<forall>j < d. cr_bucket (path ! Suc j) =
               alt_index hp (cr_hv (path ! j)) (cr_bucket (path ! j)))"

section \<open>Invariants of the filter engine\<close>

text \<open>The number of occupied slots of a bucket.\<close>

definition cnt :: "tag_type list \<Rightarrow> nat" where
  "cnt b = length (filter (\<lambda>t. t \<noteq> 0) b)"

text \<open>Every bucket has its four slots.\<close>

definition wf_tbl :: "tag_type list list \<Rightarrow> bool" where
  "wf_tbl tbl \<longleftrightarrow> (\<forall>b \<in> set tbl. length b = kTagsPerBucket)"

text \<open>
  The invariant of the filter: it is well formed, the item count is the number of
  occupied slots, and a held victim has a nonzero tag and a valid bucket index.
\<close>

definition filter_inv :: "CuckooFilter \<Rightarrow> bool" where
  "filter_inv f \<longleftrightarrow>
     wf_filter f \<and> unat (cf_num_items f) = occupied_slots (cf_table f) \<and>
     (vc_used (cf_victim f) \<longrightarrow>
        vc_tag (cf_victim f) \<noteq> 0 \<and> unat (vc_index (cf_victim f)) < length (cf_table f))"

section \<open>Index arithmetic\<close>

lemma hashmask_eq_mask: "hashmask hp = mask hp"
  by (simp add: hashmask_def hashsize_def mask_eq_exp_minus_1)

lemma take_bit_self_unat:
  fixes i :: "'a::len word"
  assumes "unat i < 2 ^ n"
  shows "take_bit n i = i"
proof -
  have "uint i < 2 ^ n"
    using assms by (metis of_nat_less_iff of_nat_numeral of_nat_power uint_nat)
  then have "i AND mask n = i"
    by (simp add: mask_eq_iff)
  then show ?thesis
    by (simp add: take_bit_eq_mask)
qed

lemma alt_index_twice:
  assumes "unat i < 2 ^ hp"
  shows "alt_index hp hv (alt_index hp hv i) = i"
  using take_bit_self_unat [OF assms]
  by (simp add: alt_index_def Let_def hashmask_eq_mask xor.assoc flip: take_bit_eq_mask)

lemma word_mod_pow2:
  fixes x :: "'a::len word"
  shows "x mod 2 ^ k = take_bit k x"
  by (simp add: take_bit_eq_mod)

lemma AltIndex_twice:
  assumes "length (cf_table f) = 2 ^ k" "unat i < length (cf_table f)"
  shows "AltIndex f (AltIndex f i x) x = i"
proof -
  have nb: "NumBuckets (cf_table f) = 2 ^ k"
    using assms by (simp add: NumBuckets_def)
  have "take_bit k i = i"
    using assms by (simp add: take_bit_self_unat)
  then show ?thesis
    by (simp add: AltIndex_def Let_def nb word_mod_pow2 xor.assoc)
qed

text \<open>
  Claim C3, as stated, for the filter engine: applying \<open>AltIndex\<close> twice with the same
  item returns the bucket index.  It fails in the filter of twelve buckets: bucket 8
  goes to bucket 1, and bucket 1 goes to bucket 4.
\<close>

theorem C3_filter_counterexample:
  "unat (8 :: size_type) < length (cf_table filter12) \<and>
   AltIndex filter12 8 0 = 1 \<and> AltIndex filter12 1 0 = 4 \<and>
   AltIndex filter12 (AltIndex filter12 8 0) 0 \<noteq> 8"
  by (simp add: filter12_def CuckooFilter_init_def AltIndex_def NumBuckets_def
      murmur_const_def kTagsPerBucket_def)

text \<open>
  Claim C3, amended: in the table engine \<open>alt_index\<close> is an involution on the valid
  bucket indices for every hash power and every hash value; in the filter engine
  \<open>AltIndex\<close> is an involution on the valid bucket indices whenever the bucket count is
  a power of two.
\<close>

theorem C3_alt_index_involution:
  assumes "hp < 64" and "unat i < 2 ^ hp"
    and "length (cf_table f) = 2 ^ k" and "unat j < length (cf_table f)"
  shows "alt_index hp hv (alt_index hp hv i) = i \<and> AltIndex f (AltIndex f j x) x = j"
  using assms by (simp add: alt_index_twice AltIndex_twice)

theorem C3_alt_index_involution_witness:
  "(2 :: nat) < 64 \<and> unat (3 :: size_type) < 2 ^ 2 \<and>
   length (cf_table filter4) = 2 ^ 2 \<and> unat (1 :: size_type) < length (cf_table filter4) \<and>
   alt_index 2 5 (alt_index 2 5 3) = 3 \<and> AltIndex filter4 (AltIndex filter4 1 7) 7 = 1"
proof -
  have h1: "(2 :: nat) < 64" by simp
  have h2: "unat (3 :: size_type) < 2 ^ 2" by simp
  have h3: "length (cf_table filter4) = 2 ^ 2"
    by (simp add: filter4_def CuckooFilter_init_def)
  have h4: "unat (1 :: size_type) < length (cf_table filter4)"
    by (simp add: filter4_def CuckooFilter_init_def)
  show ?thesis
    using h1 h2 h3 h4 C3_alt_index_involution [OF h1 h2 h3 h4, of 5 7] by simp
qed

section \<open>The filter engine\<close>

lemma find_slot_Some: "find_slot t b = Some j \<Longrightarrow> j < length b \<and> b ! j = t"
  by (induction b arbitrary: j) (auto split: if_splits)

lemma find_slot_None: "find_slot t b = None \<longleftrightarrow> t \<notin> set b"
  by (induction b) auto

lemma cnt_simps [simp]: "cnt [] = 0" "cnt (x # xs) = (if x \<noteq> 0 then 1 else 0) + cnt xs"
  by (simp_all add: cnt_def)

lemma cnt_update:
  "j < length b \<Longrightarrow>
   cnt (b[j := t]) + (if b ! j \<noteq> 0 then 1 else 0) = cnt b + (if t \<noteq> 0 then 1 else 0)"
proof (induction b arbitrary: j)
  case Nil
  then show ?case by simp
next
  case (Cons a b)
  then show ?case by (cases j) auto
qed

lemma cnt_le: "cnt b \<le> length b"
  by (simp add: cnt_def)

lemma occupied_slots_simps [simp]:
  "occupied_slots [] = 0" "occupied_slots (b # tbl) = cnt b + occupied_slots tbl"
  by (simp_all add: occupied_slots_def cnt_def)

lemma occupied_slots_update:
  "i < length tbl \<Longrightarrow>
   occupied_slots (tbl[i := b']) + cnt (tbl ! i) = occupied_slots tbl + cnt b'"
proof (induction tbl arbitrary: i)
  case Nil
  then show ?case by simp
next
  case (Cons a tbl)
  then show ?case
  proof (cases i)
    case 0
    then show ?thesis by simp
  next
    case (Suc n)
    with Cons.prems have "n < length tbl" by simp
    from Cons.IH [OF this] Suc show ?thesis by simp
  qed
qed

lemma occupied_slots_le:
  "\<forall>b \<in> set tbl. length b = kTagsPerBucket \<Longrightarrow> occupied_slots tbl \<le> 4 * length tbl"
proof (induction tbl)
  case Nil
  then show ?case by simp
next
  case (Cons a tbl)
  have "cnt a \<le> 4" using cnt_le [of a] Cons.prems by (simp add: kTagsPerBucket_def)
  with Cons show ?case by simp
qed

lemma unat_NumBuckets:
  "length tbl < 2 ^ 62 \<Longrightarrow> unat (NumBuckets tbl) = length tbl"
proof -
  assume a: "length tbl < 2 ^ 62"
  have "(2::nat) ^ 62 < 2 ^ 64" by simp
  with a have "length tbl < 2 ^ LENGTH(64)" by simp
  then show ?thesis
    unfolding NumBuckets_def by (rule of_nat_inverse [OF refl])
qed

lemma mod_NumBuckets_less:
  assumes "0 < length tbl" "length tbl < 2 ^ 62"
  shows "unat (x mod NumBuckets tbl) < length tbl"
  using assms by (simp add: unat_mod unat_NumBuckets)

lemma TagHash_nonzero: "TagHash f hv \<noteq> 0"
  by (simp add: TagHash_def Let_def)

lemma wf_tbl_update:
  "wf_tbl tbl \<Longrightarrow> length b' = kTagsPerBucket \<Longrightarrow> wf_tbl (tbl[i := b'])"
  unfolding wf_tbl_def using set_update_subset_insert [of tbl i b'] by auto

lemma wf_tbl_nth: "wf_tbl tbl \<Longrightarrow> i < length tbl \<Longrightarrow> length (tbl ! i) = kTagsPerBucket"
  by (simp add: wf_tbl_def)

lemma Insert_True:
  assumes "InsertTagToBucket tbl i tag kickout ot = (True, tbl', ot')"
    and "wf_tbl tbl" and "unat i < length tbl" and "tag \<noteq> 0"
  shows "wf_tbl tbl' \<and> length tbl' = length tbl \<and> occupied_slots tbl' = occupied_slots tbl + 1"
proof -
  let ?b = "tbl ! unat i"
  from assms(1) obtain j where j: "find_slot 0 ?b = Some j" and t: "tbl' = tbl[unat i := ?b[j := tag]]"
    by (auto simp: InsertTagToBucket_def Let_def split: option.splits if_splits)
  from find_slot_Some [OF j] have jl: "j < length ?b" and j0: "?b ! j = 0" by simp_all
  have "wf_tbl tbl'"
    using assms(2,3) t by (simp add: wf_tbl_update wf_tbl_nth)
  moreover have "occupied_slots tbl' = occupied_slots tbl + 1"
    using occupied_slots_update [OF assms(3), of "?b[j := tag]"] cnt_update [OF jl, of tag] j0 assms(4) t
    by simp
  ultimately show ?thesis using t by simp
qed

lemma Insert_False:
  assumes "InsertTagToBucket tbl i tag kickout ot = (False, tbl', ot')"
    and "wf_tbl tbl" and "unat i < length tbl" and "tag \<noteq> 0"
  shows "wf_tbl tbl' \<and> length tbl' = length tbl \<and> occupied_slots tbl' = occupied_slots tbl \<and>
         (kickout \<longrightarrow> ot' \<noteq> 0)"
proof -
  let ?b = "tbl ! unat i"
  from assms(1) have n: "find_slot 0 ?b = None"
    by (auto simp: InsertTagToBucket_def Let_def split: option.splits if_splits)
  have len: "length ?b = kTagsPerBucket" using assms(2,3) by (simp add: wf_tbl_nth)
  then have l0: "0 < length ?b" by (simp add: kTagsPerBucket_def)
  from n have "0 \<notin> set ?b" by (simp add: find_slot_None)
  with l0 have b0: "?b ! 0 \<noteq> 0" by (metis nth_mem)
  show ?thesis
  proof (cases kickout)
    case True
    with assms(1) n have t: "tbl' = tbl[unat i := ?b[0 := tag]]" and o: "ot' = ?b ! 0"
      by (auto simp: InsertTagToBucket_def Let_def)
    have "occupied_slots tbl' = occupied_slots tbl"
      using occupied_slots_update [OF assms(3), of "?b[0 := tag]"] cnt_update [OF l0, of tag] b0 assms(4) t
      by simp
    moreover have "wf_tbl tbl'" using assms(2) len t by (simp add: wf_tbl_update)
    ultimately show ?thesis using t o b0 by simp
  next
    case False
    with assms(1) n have "tbl' = tbl"
      by (auto simp: InsertTagToBucket_def Let_def)
    with False assms(2) show ?thesis by simp
  qed
qed

lemma wf_filter_tbl: "wf_filter f \<Longrightarrow> wf_tbl (cf_table f)"
  by (simp add: wf_filter_def wf_tbl_def)

lemma AltIndex_less: "wf_filter f \<Longrightarrow> unat (AltIndex f i x) < length (cf_table f)"
  by (simp add: AltIndex_def Let_def wf_filter_def mod_NumBuckets_less)

lemma IndexHash_less: "wf_filter f \<Longrightarrow> unat (IndexHash f x) < length (cf_table f)"
  by (simp add: IndexHash_def Let_def wf_filter_def mod_NumBuckets_less)

lemma wf_filter_table_update:
  "wf_filter f \<Longrightarrow> wf_tbl tbl \<Longrightarrow> length tbl = length (cf_table f) \<Longrightarrow>
   wf_filter (f\<lparr>cf_table := tbl\<rparr>)"
  by (simp add: wf_filter_def wf_tbl_def)

lemma AltIndex_table_update:
  "length tbl = length (cf_table f) \<Longrightarrow> AltIndex (f\<lparr>cf_table := tbl\<rparr>) i x = AltIndex f i x"
  by (simp add: AltIndex_def NumBuckets_def)

lemma unat_inc:
  fixes n :: size_type
  assumes "unat n < 2 ^ 64 - 1"
  shows "unat (n + 1) = unat n + 1"
  using assms by (simp add: unat_word_ariths)

lemma AddImpl_loop_inv:
  "filter_inv f \<Longrightarrow> tag \<noteq> 0 \<Longrightarrow> unat i < length (cf_table f) \<Longrightarrow>
   filter_inv (snd (AddImpl_loop f c i tag)) \<and> fst (AddImpl_loop f c i tag) = Ok"
proof (induction f c i tag rule: AddImpl_loop.induct)
  case (1 f count curindex curtag)
  note inv = "1.prems"(1) and tag = "1.prems"(2) and idx = "1.prems"(3)
  from inv have wf: "wf_filter f" and num: "unat (cf_num_items f) = occupied_slots (cf_table f)"
    by (simp_all add: filter_inv_def)
  have wt: "wf_tbl (cf_table f)" by (rule wf_filter_tbl [OF wf])
  show ?case
  proof (cases "count < kMaxCuckooCount")
    case False
    then show ?thesis
      using inv tag idx
      by (subst (1 2) AddImpl_loop.simps) (simp add: filter_inv_def wf_filter_def)
  next
    case lt: True
    obtain r tbl ot where ins: "InsertTagToBucket (cf_table f) curindex curtag (0 < count) 0 = (r, tbl, ot)"
      by (cases "InsertTagToBucket (cf_table f) curindex curtag (0 < count) 0") auto
    show ?thesis
    proof (cases r)
      case True
      with ins have ins': "InsertTagToBucket (cf_table f) curindex curtag (0 < count) 0 = (True, tbl, ot)"
        by simp
      from Insert_True [OF ins' wt idx tag]
      have a: "wf_tbl tbl" "length tbl = length (cf_table f)"
        "occupied_slots tbl = occupied_slots (cf_table f) + 1" by simp_all
      have "occupied_slots tbl \<le> 4 * length tbl"
        using a(1) by (intro occupied_slots_le) (simp add: wf_tbl_def)
      moreover have "length tbl < 2 ^ 62" using a(2) wf by (simp add: wf_filter_def)
      ultimately have "unat (cf_num_items f) < 2 ^ 64 - 1" using a(3) num by simp
      then have "unat (cf_num_items f + 1) = occupied_slots tbl"
        using a(3) num by (simp add: unat_inc)
      then have "filter_inv (f\<lparr>cf_table := tbl, cf_num_items := cf_num_items f + 1\<rparr>)"
        using inv a by (simp add: filter_inv_def wf_filter_def wf_tbl_def)
      then show ?thesis
        using lt ins True by (subst (1 2) AddImpl_loop.simps) simp
    next
      case False
      with ins have ins': "InsertTagToBucket (cf_table f) curindex curtag (0 < count) 0 = (False, tbl, ot)"
        by simp
      from Insert_False [OF ins' wt idx tag]
      have a: "wf_tbl tbl" "length tbl = length (cf_table f)"
        "occupied_slots tbl = occupied_slots (cf_table f)" "0 < count \<longrightarrow> ot \<noteq> 0" by simp_all
      let ?tag = "if 0 < count then ot else curtag"
      let ?idx = "AltIndex f curindex (ucast ?tag)"
      let ?f = "f\<lparr>cf_table := tbl\<rparr>"
      have i1: "filter_inv ?f"
        using inv a by (simp add: filter_inv_def wf_filter_def wf_tbl_def)
      have i2: "?tag \<noteq> 0" using a(4) tag by simp
      have i3: "unat ?idx < length (cf_table ?f)"
        using AltIndex_less [OF wf] a(2) by simp
      from "1.IH" [OF lt refl ins [symmetric] _ refl refl refl i1 i2 i3] False
      have "filter_inv (snd (AddImpl_loop ?f (count + 1) ?idx ?tag)) \<and>
            fst (AddImpl_loop ?f (count + 1) ?idx ?tag) = Ok"
        by simp
      then show ?thesis
        using lt ins False by (subst (1 2) AddImpl_loop.simps) (cases "0 < count"; simp)
    qed
  qed
qed

lemma AddImpl_loop_outcome:
  "\<exists>f'. AddImpl_loop f c i tag = (Ok, f') \<and>
     ((cf_num_items f' = cf_num_items f + 1 \<and> cf_victim f' = cf_victim f) \<or>
      (cf_num_items f' = cf_num_items f \<and> vc_used (cf_victim f')))"
proof (induction f c i tag rule: AddImpl_loop.induct)
  case (1 f count curindex curtag)
  show ?case
  proof (cases "count < kMaxCuckooCount")
    case False
    then show ?thesis by (subst AddImpl_loop.simps) simp
  next
    case lt: True
    obtain r tbl ot where ins: "InsertTagToBucket (cf_table f) curindex curtag (0 < count) 0 = (r, tbl, ot)"
      by (cases "InsertTagToBucket (cf_table f) curindex curtag (0 < count) 0") auto
    show ?thesis
    proof (cases r)
      case True
      then show ?thesis using lt ins by (subst AddImpl_loop.simps) simp
    next
      case False
      let ?tag = "if 0 < count then ot else curtag"
      let ?idx = "AltIndex f curindex (ucast ?tag)"
      let ?f = "f\<lparr>cf_table := tbl\<rparr>"
      from "1.IH" [OF lt refl ins [symmetric] _ refl refl refl] False
      obtain f' where "AddImpl_loop ?f (count + 1) ?idx ?tag = (Ok, f')"
        and "(cf_num_items f' = cf_num_items f + 1 \<and> cf_victim f' = cf_victim f) \<or>
             (cf_num_items f' = cf_num_items f \<and> vc_used (cf_victim f'))"
        by auto
      then show ?thesis
        using lt ins False by (subst AddImpl_loop.simps) (cases "0 < count"; simp)
    qed
  qed
qed

lemma Delete_False:
  "DeleteTagFromBucket tbl i tag = (False, tbl') \<Longrightarrow> tbl' = tbl"
  by (auto simp: DeleteTagFromBucket_def Let_def split: option.splits)

lemma Delete_True:
  assumes "DeleteTagFromBucket tbl i tag = (True, tbl')"
    and "wf_tbl tbl" and "unat i < length tbl" and "tag \<noteq> 0"
  shows "wf_tbl tbl' \<and> length tbl' = length tbl \<and> occupied_slots tbl' + 1 = occupied_slots tbl"
proof -
  let ?b = "tbl ! unat i"
  from assms(1) obtain j where j: "find_slot tag ?b = Some j" and t: "tbl' = tbl[unat i := ?b[j := 0]]"
    by (auto simp: DeleteTagFromBucket_def Let_def split: option.splits)
  from find_slot_Some [OF j] have jl: "j < length ?b" and jt: "?b ! j = tag" by simp_all
  have "wf_tbl tbl'"
    using assms(2,3) t by (simp add: wf_tbl_update wf_tbl_nth)
  moreover have "occupied_slots tbl' + 1 = occupied_slots tbl"
    using occupied_slots_update [OF assms(3), of "?b[j := 0]"] cnt_update [OF jl, of 0] jt assms(4) t
    by simp
  ultimately show ?thesis using t by simp
qed

lemma GenerateIndexTagHash_wf:
  assumes "wf_filter f"
  shows "\<exists>i tag. GenerateIndexTagHash f item = Inr (i, tag) \<and> i = IndexHash f item \<and>
           unat i < length (cf_table f) \<and> tag \<noteq> 0"
proof -
  have "unat (IndexHash f item) < length (cf_seeds f)"
    using IndexHash_less [OF assms] assms by (simp add: wf_filter_def)
  then show ?thesis
    using IndexHash_less [OF assms]
    by (simp add: GenerateIndexTagHash_def Let_def seeds_at_def TagHash_nonzero)
qed

lemma TryEliminateVictim_Ok: "fst (TryEliminateVictim f) = Ok"
  by (simp add: TryEliminateVictim_def Let_def)

lemma Delete_NotFound_unchanged:
  assumes "Delete f key = Inr (NotFound, f')"
  shows "f' = f"
proof (cases "GenerateIndexTagHash f key")
  case (Inl e)
  with assms show ?thesis by (simp add: Delete_def)
next
  case (Inr p)
  obtain i1 tag where p: "p = (i1, tag)" by (cases p)
  let ?i2 = "AltIndex f i1 (ucast tag)"
  obtain r1 tbl1 where d1: "DeleteTagFromBucket (cf_table f) i1 tag = (r1, tbl1)"
    by (cases "DeleteTagFromBucket (cf_table f) i1 tag")
  obtain r2 tbl2 where d2: "DeleteTagFromBucket tbl1 ?i2 tag = (r2, tbl2)"
    by (cases "DeleteTagFromBucket tbl1 ?i2 tag")
  have nf: "\<And>g. TryEliminateVictim g \<noteq> (NotFound, f')"
    using TryEliminateVictim_Ok by (metis Status.distinct(1) fst_conv)
  from assms Inr p d1 d2 nf have r1: "\<not> r1" and r2: "\<not> r2"
    by (auto simp: Delete_def Let_def split: if_splits bool.splits)
  with d1 d2 have "tbl1 = cf_table f" "tbl2 = cf_table f"
    by (auto dest: Delete_False)
  with assms Inr p d1 d2 r1 r2 show ?thesis
    by (auto simp: Delete_def Let_def split: if_splits bool.splits)
qed

lemma unat_dec:
  fixes n :: size_type
  assumes "unat n = Suc m"
  shows "unat (n - 1) = m"
proof -
  have "n \<noteq> 0" using assms by auto
  then have "unat (n - 1) = unat n - 1" by (simp add: unat_minus_one)
  with assms show ?thesis by simp
qed

lemma TryEliminateVictim_inv:
  assumes "filter_inv g"
  shows "filter_inv (snd (TryEliminateVictim g))"
proof (cases "vc_used (cf_victim g)")
  case False
  with assms show ?thesis by (simp add: TryEliminateVictim_def)
next
  case True
  let ?g = "g\<lparr>cf_victim := (cf_victim g)\<lparr>vc_used := False\<rparr>\<rparr>"
  have 1: "filter_inv ?g" using assms by (simp add: filter_inv_def wf_filter_def)
  have 2: "vc_tag (cf_victim g) \<noteq> 0" "unat (vc_index (cf_victim g)) < length (cf_table ?g)"
    using assms True by (simp_all add: filter_inv_def)
  from AddImpl_loop_inv [OF 1 2, of 0] True show ?thesis
    by (simp add: TryEliminateVictim_def Let_def AddImpl_def)
qed

lemma deleted_inv:
  assumes inv: "filter_inv f"
    and d: "DeleteTagFromBucket (cf_table f) i tag = (True, tbl)"
    and i: "unat i < length (cf_table f)" and tag: "tag \<noteq> 0"
  shows "filter_inv (f\<lparr>cf_table := tbl, cf_num_items := cf_num_items f - 1\<rparr>)"
proof -
  from inv have wf: "wf_filter f" and num: "unat (cf_num_items f) = occupied_slots (cf_table f)"
    by (simp_all add: filter_inv_def)
  from Delete_True [OF d wf_filter_tbl [OF wf] i tag]
  have a: "wf_tbl tbl" "length tbl = length (cf_table f)"
    "occupied_slots tbl + 1 = occupied_slots (cf_table f)" by simp_all
  from a(3) num have "unat (cf_num_items f) = Suc (occupied_slots tbl)" by simp
  then have "unat (cf_num_items f - 1) = occupied_slots tbl" by (rule unat_dec)
  then show ?thesis
    using inv a by (simp add: filter_inv_def wf_filter_def wf_tbl_def)
qed

lemma Delete_inv:
  assumes inv: "filter_inv f" and del: "Delete f key = Inr (st, f')"
  shows "filter_inv f'"
proof -
  from inv have wf: "wf_filter f" by (simp add: filter_inv_def)
  from GenerateIndexTagHash_wf [OF wf, of key]
  obtain i1 tag where g: "GenerateIndexTagHash f key = Inr (i1, tag)"
    and i1: "unat i1 < length (cf_table f)" and tag: "tag \<noteq> 0" by auto
  let ?i2 = "AltIndex f i1 (ucast tag)"
  have i2: "unat ?i2 < length (cf_table f)" by (rule AltIndex_less [OF wf])
  obtain r1 tbl1 where d1: "DeleteTagFromBucket (cf_table f) i1 tag = (r1, tbl1)"
    by (cases "DeleteTagFromBucket (cf_table f) i1 tag")
  show ?thesis
  proof (cases r1)
    case True
    with d1 have "filter_inv (f\<lparr>cf_table := tbl1, cf_num_items := cf_num_items f - 1\<rparr>)"
      using deleted_inv [OF inv _ i1 tag] by simp
    from TryEliminateVictim_inv [OF this] del g d1 True show ?thesis
      by (auto simp: Delete_def Let_def)
  next
    case False
    with d1 have t1: "tbl1 = cf_table f" by (auto dest: Delete_False)
    obtain r2 tbl2 where d2: "DeleteTagFromBucket (cf_table f) ?i2 tag = (r2, tbl2)"
      by (cases "DeleteTagFromBucket (cf_table f) ?i2 tag")
    show ?thesis
    proof (cases r2)
      case True
      with d2 have "filter_inv (f\<lparr>cf_table := tbl2, cf_num_items := cf_num_items f - 1\<rparr>)"
        using deleted_inv [OF inv _ i2 tag] by simp
      from TryEliminateVictim_inv [OF this] del g d1 d2 False True t1 show ?thesis
        by (auto simp: Delete_def Let_def)
    next
      case r2: False
      with d2 have t2: "tbl2 = cf_table f" by (auto dest: Delete_False)
      have "filter_inv (f\<lparr>cf_victim := (cf_victim f)\<lparr>vc_used := False\<rparr>\<rparr>)"
        using inv by (simp add: filter_inv_def wf_filter_def)
      with del g d1 d2 False r2 t1 t2 inv show ?thesis
        by (auto simp: Delete_def Let_def split: if_splits)
    qed
  qed
qed

lemma Add_inv:
  assumes inv: "filter_inv f" and add: "Add f item = Inr (st, f')"
  shows "filter_inv f'"
proof (cases "vc_used (cf_victim f)")
  case True
  with add inv show ?thesis by (simp add: Add_def)
next
  case False
  from inv have wf: "wf_filter f" by (simp add: filter_inv_def)
  from GenerateIndexTagHash_wf [OF wf, of item]
  obtain i tag where g: "GenerateIndexTagHash f item = Inr (i, tag)"
    and i: "unat i < length (cf_table f)" and tag: "tag \<noteq> 0" by auto
  from AddImpl_loop_inv [OF inv tag i, of 0] add g False show ?thesis
    by (auto simp: Add_def AddImpl_def)
qed

lemma Add_total:
  assumes "wf_filter f"
  shows "\<exists>st f'. Add f item = Inr (st, f')"
proof -
  from GenerateIndexTagHash_wf [OF assms, of item]
  obtain i tag where g: "GenerateIndexTagHash f item = Inr (i, tag)" by auto
  then show ?thesis
    by (cases "AddImpl f i tag") (simp add: Add_def)
qed

lemma Delete_total:
  assumes "wf_filter f"
  shows "\<exists>st f'. Delete f key = Inr (st, f')"
proof -
  from GenerateIndexTagHash_wf [OF assms, of key]
  obtain i tag where g: "GenerateIndexTagHash f key = Inr (i, tag)" by auto
  then show ?thesis
    by (auto simp: Delete_def Let_def split: prod.splits bool.splits)
qed

lemma run_ops_inv:
  "filter_inv f \<Longrightarrow> \<exists>f'. run_ops f ops = Inr f' \<and> filter_inv f'"
proof (induction ops arbitrary: f)
  case Nil
  then show ?case by simp
next
  case (Cons op ops)
  from Cons.prems have wf: "wf_filter f" by (simp add: filter_inv_def)
  show ?case
  proof (cases op)
    case (OpAdd x)
    from Add_total [OF wf, of x] obtain st f1 where a: "Add f x = Inr (st, f1)" by auto
    from Add_inv [OF Cons.prems a] have "filter_inv f1" .
    from Cons.IH [OF this] a OpAdd show ?thesis by simp
  next
    case (OpDelete x)
    from Delete_total [OF wf, of x] obtain st f1 where a: "Delete f x = Inr (st, f1)" by auto
    from Delete_inv [OF Cons.prems a] have "filter_inv f1" .
    from Cons.IH [OF this] a OpDelete show ?thesis by simp
  qed
qed

lemma occupied_slots_empty: "occupied_slots (replicate n (replicate k 0)) = 0"
  by (induction n) (simp_all add: cnt_def)

lemma init_inv:
  assumes "seeds \<noteq> []" "length seeds < 2 ^ 62" "hp < 64" "bits \<le> 32"
  shows "filter_inv (CuckooFilter_init h bits seeds hp)"
  using assms
  by (simp add: filter_inv_def wf_filter_def CuckooFilter_init_def occupied_slots_empty)

lemma run_ops_append:
  "run_ops f (xs @ ys) = (case run_ops f xs of Inl e \<Rightarrow> Inl e | Inr f' \<Rightarrow> run_ops f' ys)"
proof (induction xs arbitrary: f)
  case Nil
  then show ?case by simp
next
  case (Cons x xs)
  then show ?case by (cases x) (auto split: sum.splits)
qed

lemma replicate_4: "replicate 4 x = [x, x, x, x]"
  by (simp add: numeral_eq_Suc)

lemma four: "run_ops filter1 [OpAdd 1, OpAdd 2, OpAdd 3, OpAdd 4] = Inr filter1_four"
  by (simp add: filter1_def filter1_four_def CuckooFilter_init_def Add_def AddImpl_def
      AddImpl_loop.simps GenerateIndexTagHash_def IndexHash_def NumBuckets_def seeds_at_def
      TagHash_def xor_hasher_def InsertTagToBucket_def kMaxCuckooCount_def kTagsPerBucket_def
      replicate_4 Let_def)

text \<open>In a single full bucket the walk swaps the pending tag with slot 0.\<close>

lemma pingpong:
  "count \<le> 500 \<Longrightarrow> 0 < count \<Longrightarrow> t \<noteq> 0 \<Longrightarrow> a \<noteq> 0 \<Longrightarrow> b \<noteq> 0 \<Longrightarrow> c \<noteq> 0 \<Longrightarrow> d \<noteq> 0 \<Longrightarrow>
   AddImpl_loop (filter1_four\<lparr>cf_table := [[a, b, c, d]]\<rparr>) count 0 t =
     (Ok, filter1_four\<lparr>cf_table := [[if even (500 - count) then a else t, b, c, d]],
            cf_victim := \<lparr> vc_index = 0, vc_tag = (if even (500 - count) then t else a), vc_used = True \<rparr>\<rparr>)"
proof (induction "500 - count" arbitrary: count a t)
  case 0
  then show ?case
    by (subst AddImpl_loop.simps) (simp add: kMaxCuckooCount_def)
next
  case (Suc n)
  then have n: "n = 500 - (count + 1)" "count + 1 \<le> 500" "0 < count + 1" "count < 500" by simp_all
  have alt: "AltIndex (filter1_four\<lparr>cf_table := [[a, b, c, d]]\<rparr>) 0 x = 0" for x
    by (simp add: AltIndex_def NumBuckets_def Let_def)
  have ins: "a \<noteq> 0 \<Longrightarrow> b \<noteq> 0 \<Longrightarrow> c \<noteq> 0 \<Longrightarrow> d \<noteq> 0 \<Longrightarrow>
      InsertTagToBucket [[a, b, c, d]] 0 t k 0 = (False, if k then [[t, b, c, d]] else [[a, b, c, d]], if k then a else 0)" for a b c d t k
    by (simp add: InsertTagToBucket_def)
  have ev: "even (500 - count) \<longleftrightarrow> \<not> even (500 - (count + 1))"
    using n(4) by presburger
  have step: "AddImpl_loop (filter1_four\<lparr>cf_table := [[a, b, c, d]]\<rparr>) count 0 t =
        AddImpl_loop (filter1_four\<lparr>cf_table := [[t, b, c, d]]\<rparr>) (count + 1) 0 a"
    using n(4) Suc.prems(2) alt ins [OF Suc.prems(4,5,6,7)]
    by (subst AddImpl_loop.simps) (simp add: kMaxCuckooCount_def Let_def)
  show ?case
    unfolding step
    using Suc.hyps(1) [OF n(1) n(2) n(3) Suc.prems(4) Suc.prems(3) Suc.prems(5,6,7), of ] ev
    by simp
qed

lemma five: "Add filter1_four 5 = Inr (Ok, filter1_full)"
proof -
  have ins: "InsertTagToBucket [[1, 2, 3, 4]] 0 5 False 0 = (False, [[1, 2, 3, 4]], 0)"
    by (simp add: InsertTagToBucket_def)
  have g: "GenerateIndexTagHash filter1_four 5 = Inr (0, 5)"
    by (simp add: filter1_four_def GenerateIndexTagHash_def IndexHash_def NumBuckets_def
        seeds_at_def TagHash_def xor_hasher_def Let_def)
  have f: "filter1_four\<lparr>cf_table := [[1, 2, 3, 4]]\<rparr> = filter1_four"
    by (simp add: filter1_four_def)
  have "AddImpl_loop filter1_four 0 0 5 = AddImpl_loop (filter1_four\<lparr>cf_table := [[1, 2, 3, 4]]\<rparr>) 1 0 5"
    using ins
    by (subst AddImpl_loop.simps) (simp add: kMaxCuckooCount_def filter1_four_def AltIndex_def NumBuckets_def Let_def)
  also have "\<dots> = (Ok, filter1_full)"
    by (subst pingpong) (simp_all add: filter1_four_def filter1_full_def)
  finally show ?thesis
    using g by (simp add: Add_def AddImpl_def filter1_four_def)
qed

text \<open>
  On a filter with one seed per bucket \<open>Add\<close> returns \<open>NotEnoughSpace\<close> exactly when a
  victim is held at the start of the call, and \<open>Ok\<close> in every other case, whether the tag
  was placed (the item count grows by one) or the walk ran out of kicks (the pending pair
  is the victim).  When the counter of \<open>AddImpl\<close> reaches the bound, the current index and
  tag are stored as the victim and \<open>Ok\<close> is returned.
\<close>

lemma Add_status:
  assumes "wf_filter f"
  shows "((\<exists>f'. Add f item = Inr (NotEnoughSpace, f')) \<longleftrightarrow> vc_used (cf_victim f)) \<and>
         (vc_used (cf_victim f) \<longrightarrow> Add f item = Inr (NotEnoughSpace, f)) \<and>
         (\<not> vc_used (cf_victim f) \<longrightarrow>
            (\<exists>f'. Add f item = Inr (Ok, f') \<and>
               ((cf_num_items f' = cf_num_items f + 1 \<and> cf_victim f' = cf_victim f) \<or>
                (cf_num_items f' = cf_num_items f \<and> vc_used (cf_victim f'))))) \<and>
         AddImpl_loop f kMaxCuckooCount i tag =
           (Ok, f\<lparr>cf_victim := \<lparr> vc_index = i, vc_tag = tag, vc_used = True \<rparr>\<rparr>)"
proof -
  from GenerateIndexTagHash_wf [OF assms, of item]
  obtain j t where g: "GenerateIndexTagHash f item = Inr (j, t)" by auto
  from AddImpl_loop_outcome [of f 0 j t]
  obtain f' where a: "AddImpl_loop f 0 j t = (Ok, f')"
    and b: "(cf_num_items f' = cf_num_items f + 1 \<and> cf_victim f' = cf_victim f) \<or>
            (cf_num_items f' = cf_num_items f \<and> vc_used (cf_victim f'))" by auto
  have 1: "vc_used (cf_victim f) \<longrightarrow> Add f item = Inr (NotEnoughSpace, f)"
    by (simp add: Add_def)
  have 2: "\<not> vc_used (cf_victim f) \<longrightarrow> Add f item = Inr (Ok, f')"
    using g a by (simp add: Add_def AddImpl_def)
  have 3: "(\<exists>f'. Add f item = Inr (NotEnoughSpace, f')) \<longleftrightarrow> vc_used (cf_victim f)"
    using 1 2 by (cases "vc_used (cf_victim f)") auto
  have 4: "AddImpl_loop f kMaxCuckooCount i tag =
           (Ok, f\<lparr>cf_victim := \<lparr> vc_index = i, vc_tag = tag, vc_used = True \<rparr>\<rparr>)"
    by (subst AddImpl_loop.simps) simp
  from 1 2 3 4 b show ?thesis by blast
qed

lemma wf_filter1_four: "wf_filter filter1_four"
  by (simp add: wf_filter_def filter1_four_def kTagsPerBucket_def)

lemma wf_filter1_full: "wf_filter filter1_full"
  by (simp add: wf_filter_def filter1_full_def kTagsPerBucket_def)

lemma Add_status_example:
  "wf_filter filter1_four \<and> \<not> vc_used (cf_victim filter1_four) \<and>
   Add filter1_four 5 = Inr (Ok, filter1_full) \<and>
   wf_filter filter1_full \<and> vc_used (cf_victim filter1_full) \<and>
   Add filter1_full 6 = Inr (NotEnoughSpace, filter1_full)"
proof -
  have u4: "\<not> vc_used (cf_victim filter1_four)" by (simp add: filter1_four_def)
  have u5: "vc_used (cf_victim filter1_full)" by (simp add: filter1_full_def)
  from Add_status [OF wf_filter1_four, of 5] u4
  obtain f' where "Add filter1_four 5 = Inr (Ok, f')" by blast
  with five have a: "Add filter1_four 5 = Inr (Ok, filter1_full)" by simp
  from Add_status [OF wf_filter1_full, of 6] u5
  have b: "Add filter1_full 6 = Inr (NotEnoughSpace, filter1_full)" by blast
  show ?thesis using wf_filter1_four wf_filter1_full u4 u5 a b by simp
qed

text \<open>
  Claim C5 at a failing input: a filter built by the one-argument constructor.  Its seed
  vector is empty, so \<open>seeds_.at(index)\<close> in \<open>GenerateIndexTagHash\<close> throws
  \<open>std::out_of_range\<close>: \<open>Add\<close> holds no victim and returns neither \<open>Ok\<close> nor
  \<open>NotEnoughSpace\<close>, whatever the hasher, the tag width, the bucket count, the value of
  \<open>hp_\<close> and the item are; \<open>Contain\<close> and \<open>Delete\<close> throw in the same way.  The
  constructor with a seed vector assigns \<open>seeds_\<close> and \<open>hp_\<close>; this one does not.
\<close>

theorem C5_Add_without_seeds:
  "vc_used (cf_victim (CuckooFilter_init1 h bits (Suc n) hp)) = False \<and>
   Add (CuckooFilter_init1 h bits (Suc n) hp) item = Inl out_of_range \<and>
   Contain (CuckooFilter_init1 h bits (Suc n) hp) item = Inl out_of_range \<and>
   Delete (CuckooFilter_init1 h bits (Suc n) hp) item = Inl out_of_range \<and>
   Add (CuckooFilter_init1 xor_hasher 8 2 0) 1 = Inl out_of_range"
  by (simp add: Add_def Contain_def Delete_def GenerateIndexTagHash_def GenerateTagHashes_def
      seeds_at_def CuckooFilter_init1_def Let_def)

text \<open>
  Claim C10: a \<open>Delete\<close> that returns \<open>NotFound\<close> leaves the whole filter as it was:
  buckets, victim cache and item count.
\<close>

theorem C10_Delete_NotFound:
  assumes "wf_filter f" and "Delete f key = Inr (NotFound, f')"
  shows "f' = f"
  using assms(2) by (rule Delete_NotFound_unchanged)

theorem C10_Delete_NotFound_witness:
  "wf_filter filter1_four \<and> Delete filter1_four 9 = Inr (NotFound, filter1_four)"
proof -
  obtain st g where d: "Delete filter1_four 9 = Inr (st, g)"
    using Delete_total [OF wf_filter1_four] by blast
  have "st = NotFound"
    using d
    by (simp add: Delete_def filter1_four_def GenerateIndexTagHash_def IndexHash_def
        NumBuckets_def seeds_at_def TagHash_def xor_hasher_def AltIndex_def
        DeleteTagFromBucket_def Let_def)
  with d have d': "Delete filter1_four 9 = Inr (NotFound, g)" by simp
  from C10_Delete_NotFound [OF wf_filter1_four d'] d' wf_filter1_four
  show ?thesis by simp
qed

text \<open>
  Claim C4, as stated: the item count is the number of occupied slots plus one if a
  victim is held.  Five insertions into a filter of one bucket fill its four slots and
  leave a victim, and \<open>Size()\<close> is 4, not 5.
\<close>

theorem C4_victim_counterexample:
  "run_ops filter1 [OpAdd 1, OpAdd 2, OpAdd 3, OpAdd 4, OpAdd 5] = Inr filter1_full \<and>
   vc_used (cf_victim filter1_full) \<and>
   unat (Size filter1_full) = 4 \<and> occupied_slots (cf_table filter1_full) = 4 \<and>
   unat (Size filter1_full) \<noteq>
     occupied_slots (cf_table filter1_full) + (if vc_used (cf_victim filter1_full) then 1 else 0)"
proof -
  have a: "run_ops filter1_four [OpAdd 5] = Inr filter1_full"
    using five by simp
  have "run_ops filter1 ([OpAdd 1, OpAdd 2, OpAdd 3, OpAdd 4] @ [OpAdd 5]) = Inr filter1_full"
    by (simp only: run_ops_append four a sum.case)
  then have "run_ops filter1 [OpAdd 1, OpAdd 2, OpAdd 3, OpAdd 4, OpAdd 5] = Inr filter1_full"
    by (simp del: run_ops.simps)
  then show ?thesis
    by (simp del: run_ops.simps add: filter1_full_def Size_def cnt_def)
qed

text \<open>
  Claim C4, amended: in every state that a sequence of \<open>Add\<close> and \<open>Delete\<close> calls
  reaches from a freshly constructed filter, no call having raised, \<open>Size()\<close> is the
  number of occupied slots of the buckets; a held victim is not counted.
\<close>

theorem C4_Size_occupied:
  assumes "seeds \<noteq> []" and "length seeds < 2 ^ 62" and "hp < 64" and "bits \<le> 32"
  shows "\<exists>f. run_ops (CuckooFilter_init h bits seeds hp) ops = Inr f \<and>
              unat (Size f) = occupied_slots (cf_table f)"
  using run_ops_inv [OF init_inv [OF assms], of h ops]
  by (auto simp: filter_inv_def Size_def)

theorem C4_Size_occupied_witness:
  "[0 :: int] \<noteq> [] \<and> length [0 :: int] < 2 ^ 62 \<and> (0 :: nat) < 64 \<and> (8 :: nat) \<le> 32 \<and>
   run_ops (CuckooFilter_init xor_hasher 8 [0] 0) [OpAdd 1, OpAdd 2, OpAdd 3, OpAdd 4] =
     Inr filter1_four \<and>
   unat (Size filter1_four) = occupied_slots (cf_table filter1_four)"
proof -
  have h1: "[0 :: int] \<noteq> []" by simp
  have h2: "length [0 :: int] < 2 ^ 62" by simp
  have h3: "(0 :: nat) < 64" by simp
  have h4: "(8 :: nat) \<le> 32" by simp
  from C4_Size_occupied [OF h1 h2 h3 h4, of xor_hasher "[OpAdd 1, OpAdd 2, OpAdd 3, OpAdd 4]"]
  obtain f where r: "run_ops (CuckooFilter_init xor_hasher 8 [0] 0) [OpAdd 1, OpAdd 2, OpAdd 3, OpAdd 4] = Inr f"
    and e: "unat (Size f) = occupied_slots (cf_table f)" by blast
  from four have r': "run_ops (CuckooFilter_init xor_hasher 8 [0] 0) [OpAdd 1, OpAdd 2, OpAdd 3, OpAdd 4] = Inr filter1_four"
    by (simp add: filter1_def)
  with r have "f = filter1_four" by simp
  with e r' h1 h2 h3 h4 show ?thesis by simp
qed

text \<open>
  Claim C1 at a failing input: five insertions into a filter of 32 buckets (128 slots).
  The items 1 to 4 fill bucket 0; the tag 5 of item 261 goes to the alternate bucket that
  \<open>AddImpl\<close> computes from the tag, bucket 21, and no victim is created.  \<open>Contain\<close>
  computes the alternate bucket from the item, bucket 29, and reports \<open>NotFound\<close> for the
  inserted item.
\<close>

theorem C1_false_negative:
  "(case run_ops filter32 [OpAdd 1, OpAdd 2, OpAdd 3, OpAdd 4, OpAdd 261] of
      Inl e \<Rightarrow> None
    | Inr f \<Rightarrow>
        Some (cf_num_items f, vc_used (cf_victim f), cf_table f ! 0, cf_table f ! 21,
              cf_table f ! 29, GenerateTagHashes f 261, Contain f 261)) =
   Some (5, False, [1, 2, 3, 4], [5, 0, 0, 0], [0, 0, 0, 0], Inr (0, 29, 5, 5), Inr NotFound)"
  by code_simp

section \<open>The table engine: the BFS queue\<close>

lemma const_pow_eq: "const_pow a b = a ^ b"
  by (induction b) simp_all

lemma MAX_CUCKOO_COUNT_eq: "MAX_CUCKOO_COUNT = 682"
  by (simp add: MAX_CUCKOO_COUNT_def slot_per_bucket_def MAX_BFS_PATH_LEN_def const_pow_eq)

lemma tree_size_4: "tree_size 4 = 341"
proof -
  have "tree_size (Suc (Suc (Suc (Suc 0)))) = 341"
    by (simp add: slot_per_bucket_def)
  then show ?thesis by (simp add: numeral_eq_Suc)
qed

lemma weight_pos: "0 < weight x"
  by (cases "nat (int MAX_BFS_PATH_LEN - 1 - bs_depth x)") (simp_all add: weight_def)

lemma length_le_sum_weight: "length xs \<le> sum_list (map weight xs)"
proof (induction xs)
  case Nil
  then show ?case by simp
next
  case (Cons x xs)
  with weight_pos [of x] show ?case by simp
qed

lemma length_le_potential:
  assumes "bq_first q \<le> length (bq_slots q)"
  shows "length (bq_slots q) \<le> potential q"
proof -
  have "length (drop (bq_first q) (bq_slots q)) \<le> sum_list (map weight (drop (bq_first q) (bq_slots q)))"
    by (rule length_le_sum_weight)
  with assms show ?thesis by (simp add: potential_def)
qed

lemma weight_child:
  assumes "bs_depth x < int MAX_BFS_PATH_LEN - 1" and "bs_depth y = bs_depth x + 1"
  shows "weight x = 1 + slot_per_bucket * weight y"
proof -
  have "nat (int MAX_BFS_PATH_LEN - 1 - bs_depth x) = Suc (nat (int MAX_BFS_PATH_LEN - 1 - bs_depth y))"
    using assms by simp
  then show ?thesis by (simp add: weight_def)
qed

lemma weight_split:
  "bs_depth x < int MAX_BFS_PATH_LEN - 1 \<Longrightarrow> weight x = 1 + slot_per_bucket * child_weight x"
proof -
  assume a: "bs_depth x < int MAX_BFS_PATH_LEN - 1"
  then have "nat (int MAX_BFS_PATH_LEN - 1 - bs_depth x) = Suc (nat (int MAX_BFS_PATH_LEN - 2 - bs_depth x))"
    by simp
  then have "weight x = 1 + slot_per_bucket * tree_size (nat (int MAX_BFS_PATH_LEN - 2 - bs_depth x))"
    by (simp add: weight_def)
  with a show ?thesis by (simp add: child_weight_def)
qed

lemma weight_ge_children: "1 + slot_per_bucket * child_weight x \<le> weight x"
proof (cases "bs_depth x < int MAX_BFS_PATH_LEN - 1")
  case True
  then show ?thesis by (simp add: weight_split)
next
  case False
  then have "child_weight x = 0" by (simp add: child_weight_def)
  with weight_pos [of x] show ?thesis by simp
qed

lemma weight_of_child:
  assumes a: "bs_depth x < int MAX_BFS_PATH_LEN - 1" and b: "bs_depth y = bs_depth x + 1"
  shows "weight y = child_weight x"
proof -
  have "int MAX_BFS_PATH_LEN - 1 - (bs_depth x + 1) = int MAX_BFS_PATH_LEN - 2 - bs_depth x"
    by simp
  then have "weight y = tree_size (nat (int MAX_BFS_PATH_LEN - 2 - bs_depth x))"
    unfolding weight_def b by (rule arg_cong)
  with a show ?thesis by (simp only: child_weight_def if_True)
qed

lemma unat_take_bit_less: "unat (take_bit n (w :: size_type)) < 2 ^ n"
  by (simp add: unsigned_take_bit_eq)

lemma alt_index_less: "unat (alt_index hp hv i) < 2 ^ hp"
proof -
  have "alt_index hp hv i = take_bit hp (i XOR (drop_bit hp hv + 1) * murmur_const)"
    by (simp add: alt_index_def Let_def hashmask_eq_mask take_bit_eq_mask)
  then show ?thesis by (simp only: unat_take_bit_less)
qed

lemma index_hash_less: "unat (index_hash hp hv) < 2 ^ hp"
proof -
  have "index_hash hp hv = take_bit hp hv"
    by (simp add: index_hash_def hashmask_eq_mask take_bit_eq_mask)
  then show ?thesis by (simp only: unat_take_bit_less)
qed

lemma scan_slots_bound:
  assumes "bq_first q \<le> length (bq_slots q)"
    and "potential q + length rest * child_weight x \<le> MAX_CUCKOO_COUNT"
    and "hp < 64" and "valid_q hp q"
  shows "\<exists>r q'. scan_slots t hp x st rest q = Inr (r, q') \<and>
           bq_first q' = bq_first q \<and> bq_first q' \<le> length (bq_slots q') \<and>
           potential q' \<le> potential q + length rest * child_weight x \<and>
           valid_q hp q' \<and>
           (\<forall>x'. r = Some x' \<longrightarrow>
              bs_depth x' = bs_depth x \<and> bs_bucket x' = bs_bucket x \<and>
              (\<exists>s < slot_per_bucket. bucket_at t (bs_bucket x) ! s = None))"
  using assms(1,2,4)
proof (induction rest arbitrary: q)
  case Nil
  then show ?case by simp
next
  case (Cons i rest)
  let ?slot = "(st + i) mod slot_per_bucket"
  have sl: "?slot < slot_per_bucket" by (simp add: slot_per_bucket_def)
  show ?case
  proof (cases "bucket_at t (bs_bucket x) ! ?slot")
    case None
    then have "scan_slots t hp x st (i # rest) q =
       Inr (Some (x\<lparr>bs_pathcode := bs_pathcode x * of_nat slot_per_bucket + of_nat ?slot\<rparr>), q)"
      by (simp add: Let_def)
    moreover have "\<exists>s < slot_per_bucket. bucket_at t (bs_bucket x) ! s = None"
      using None sl by blast
    moreover have "potential q \<le> potential q + length (i # rest) * child_weight x"
      by simp
    ultimately show ?thesis using Cons.prems(1,3) by auto
  next
    case (Some hv)
    show ?thesis
    proof (cases "bs_depth x < int MAX_BFS_PATH_LEN - 1")
      case False
      then have cw: "child_weight x = 0" by (simp add: child_weight_def)
      have eq: "scan_slots t hp x st (i # rest) q = scan_slots t hp x st rest q"
        using Some False by (simp add: Let_def)
      from Cons.prems(2) cw have "potential q + length rest * child_weight x \<le> MAX_CUCKOO_COUNT"
        by simp
      from Cons.IH [OF Cons.prems(1) this Cons.prems(3)]
      obtain r q' where r: "scan_slots t hp x st rest q = Inr (r, q')"
        and r1: "bq_first q' = bq_first q" and r2: "bq_first q' \<le> length (bq_slots q')"
        and r3: "potential q' \<le> potential q + length rest * child_weight x"
        and r4: "valid_q hp q'"
        and r5: "\<forall>x'. r = Some x' \<longrightarrow>
              bs_depth x' = bs_depth x \<and> bs_bucket x' = bs_bucket x \<and>
              (\<exists>s < slot_per_bucket. bucket_at t (bs_bucket x) ! s = None)"
        by blast
      from r3 cw have "potential q' \<le> potential q + length (i # rest) * child_weight x"
        by simp
      with r r1 r2 r4 r5 show ?thesis unfolding eq by blast
    next
      case True
      let ?y = "\<lparr> bs_bucket = alt_index hp hv (bs_bucket x),
                  bs_pathcode = bs_pathcode x * of_nat slot_per_bucket + of_nat ?slot,
                  bs_depth = bs_depth x + 1 \<rparr>"
      let ?q = "q\<lparr>bq_slots := bq_slots q @ [?y]\<rparr>"
      have wy: "weight ?y = child_weight x" by (rule weight_of_child [OF True]) simp
      have cwpos: "0 < child_weight x" using wy weight_pos [of ?y] by simp
      have "length (bq_slots q) \<le> potential q" by (rule length_le_potential [OF Cons.prems(1)])
      with Cons.prems(2) cwpos have nf: "length (bq_slots q) < MAX_CUCKOO_COUNT" by simp
      then have notfull: "\<not> full_q q" by (simp add: full_q_def bq_last_def)
      have enq: "enqueue q ?y = Inr ?q" using notfull by (simp add: enqueue_def)
      have eq: "scan_slots t hp x st (i # rest) q = scan_slots t hp x st rest ?q"
        using Some True notfull enq by (simp add: Let_def)
      have pot: "potential ?q = potential q + child_weight x"
        using Cons.prems(1) wy by (simp add: potential_def)
      have f: "bq_first ?q \<le> length (bq_slots ?q)" using Cons.prems(1) by simp
      have b: "potential ?q + length rest * child_weight x \<le> MAX_CUCKOO_COUNT"
        using Cons.prems(2) pot by simp
      have v: "valid_q hp ?q"
        using Cons.prems(3) by (simp add: valid_q_def alt_index_less)
      from Cons.IH [OF f b v]
      obtain r q' where r: "scan_slots t hp x st rest ?q = Inr (r, q')"
        and r1: "bq_first q' = bq_first ?q" and r2: "bq_first q' \<le> length (bq_slots q')"
        and r3: "potential q' \<le> potential ?q + length rest * child_weight x"
        and r4: "valid_q hp q'"
        and r5: "\<forall>x'. r = Some x' \<longrightarrow>
              bs_depth x' = bs_depth x \<and> bs_bucket x' = bs_bucket x \<and>
              (\<exists>s < slot_per_bucket. bucket_at t (bs_bucket x) ! s = None)"
        by blast
      from r3 pot have "potential q' \<le> potential q + length (i # rest) * child_weight x"
        by simp
      moreover have "bq_first q' = bq_first q" using r1 by simp
      ultimately show ?thesis using r r2 r4 r5 unfolding eq by blast
    qed
  qed
qed

lemma slot_search_loop_bound:
  assumes "bq_first q \<le> length (bq_slots q)" and "potential q \<le> MAX_CUCKOO_COUNT"
    and "hp < 64" and "valid_q hp q"
  shows "\<exists>x q'. slot_search_loop t hp q = Some (Inr (x, q')) \<and>
           length (bq_slots q') \<le> MAX_CUCKOO_COUNT \<and>
           (bs_depth x = - 1 \<or>
            (unat (bs_bucket x) < 2 ^ hp \<and>
             (\<exists>s < slot_per_bucket. bucket_at t (bs_bucket x) ! s = None)))"
  using assms(1,2,4)
proof (induction q rule: measure_induct_rule [where f = "\<lambda>q. MAX_CUCKOO_COUNT - bq_first q"])
  case (less q)
  note fl = less.prems(1) and pot = less.prems(2) and val = less.prems(3)
  have len: "length (bq_slots q) \<le> MAX_CUCKOO_COUNT"
    using length_le_potential [OF fl] pot by simp
  show ?case
  proof (cases "empty_q q")
    case True
    then show ?thesis using len by (subst slot_search_loop.simps) simp
  next
    case False
    with fl have lt: "bq_first q < length (bq_slots q)"
      by (simp add: empty_q_def bq_last_def)
    let ?x = "bq_slots q ! bq_first q"
    let ?q1 = "q\<lparr>bq_first := bq_first q + 1\<rparr>"
    have deq: "dequeue q = Inr (?x, ?q1)"
      using False lt by (simp add: dequeue_def bq_last_def)
    have xv: "unat (bs_bucket ?x) < 2 ^ hp"
      using val lt by (simp add: valid_q_def)
    have "drop (bq_first q) (bq_slots q) = ?x # drop (Suc (bq_first q)) (bq_slots q)"
      using lt by (simp add: Cons_nth_drop_Suc)
    then have "potential q = potential ?q1 + weight ?x - 1"
      using weight_pos [of ?x] by (simp add: potential_def)
    with weight_ge_children [of ?x]
    have p1: "potential ?q1 + length [0..<slot_per_bucket] * child_weight ?x \<le> potential q"
      by simp
    with pot have p1': "potential ?q1 + length [0..<slot_per_bucket] * child_weight ?x \<le> MAX_CUCKOO_COUNT"
      by simp
    have f1: "bq_first ?q1 \<le> length (bq_slots ?q1)" using lt by simp
    have v1: "valid_q hp ?q1" using val by (simp add: valid_q_def)
    let ?st = "unat (bs_pathcode ?x) mod slot_per_bucket"
    from scan_slots_bound [OF f1 p1' assms(3) v1, of t ?st]
    obtain r q2 where sc: "scan_slots t hp ?x ?st [0..<slot_per_bucket] ?q1 = Inr (r, q2)"
      and s1: "bq_first q2 = bq_first ?q1" and s2: "bq_first q2 \<le> length (bq_slots q2)"
      and s3: "potential q2 \<le> potential ?q1 + length [0..<slot_per_bucket] * child_weight ?x"
      and s4: "valid_q hp q2"
      and s5: "\<forall>x'. r = Some x' \<longrightarrow>
              bs_depth x' = bs_depth ?x \<and> bs_bucket x' = bs_bucket ?x \<and>
              (\<exists>s < slot_per_bucket. bucket_at t (bs_bucket ?x) ! s = None)"
      by blast
    from s3 p1' have p2: "potential q2 \<le> MAX_CUCKOO_COUNT" by simp
    show ?thesis
    proof (cases r)
      case None
      have m: "MAX_CUCKOO_COUNT - bq_first q2 < MAX_CUCKOO_COUNT - bq_first q"
        using s1 lt len by simp
      from less.IH [OF m s2 p2 s4]
      obtain x q' where "slot_search_loop t hp q2 = Some (Inr (x, q'))"
        "length (bq_slots q') \<le> MAX_CUCKOO_COUNT"
        "bs_depth x = - 1 \<or>
            (unat (bs_bucket x) < 2 ^ hp \<and>
             (\<exists>s < slot_per_bucket. bucket_at t (bs_bucket x) ! s = None))"
        by blast
      then show ?thesis
        using False deq sc None by (subst slot_search_loop.simps) (simp add: Let_def)
    next
      case (Some x')
      have "length (bq_slots q2) \<le> MAX_CUCKOO_COUNT"
        using length_le_potential [OF s2] p2 by simp
      moreover from s5 Some have "bs_bucket x' = bs_bucket ?x" and
          "\<exists>s < slot_per_bucket. bucket_at t (bs_bucket ?x) ! s = None"
        by blast+
      then have "unat (bs_bucket x') < 2 ^ hp \<and>
             (\<exists>s < slot_per_bucket. bucket_at t (bs_bucket x') ! s = None)"
        using xv by simp
      ultimately show ?thesis
        using False deq sc Some by (subst slot_search_loop.simps) (simp add: Let_def)
    qed
  qed
qed

lemma slot_search_bound:
  assumes "hp < 64" and "unat i1 < 2 ^ hp" and "unat i2 < 2 ^ hp"
  shows "\<exists>x q. slot_search t hp i1 i2 = Some (Inr (x, q)) \<and>
           length (bq_slots q) \<le> MAX_CUCKOO_COUNT \<and>
           (bs_depth x = - 1 \<or>
            (unat (bs_bucket x) < 2 ^ hp \<and>
             (\<exists>s < slot_per_bucket. bucket_at t (bs_bucket x) ! s = None)))"
proof -
  let ?r1 = "\<lparr> bs_bucket = i1, bs_pathcode = 0, bs_depth = 0 \<rparr>"
  let ?r2 = "\<lparr> bs_bucket = i2, bs_pathcode = 1, bs_depth = 0 \<rparr>"
  let ?q = "\<lparr> bq_slots = [?r1, ?r2], bq_first = 0 \<rparr>"
  have e: "slot_search t hp i1 i2 = slot_search_loop t hp ?q"
    by (simp add: slot_search_def enqueue_def full_q_def bq_last_def b_queue_init_def
        MAX_CUCKOO_COUNT_eq)
  have w: "weight ?r1 = 341" "weight ?r2 = 341"
    by (simp_all add: weight_def MAX_BFS_PATH_LEN_def tree_size_4)
  have p: "potential ?q \<le> MAX_CUCKOO_COUNT"
    by (simp add: potential_def w MAX_CUCKOO_COUNT_eq)
  have v: "valid_q hp ?q" using assms by (simp add: valid_q_def)
  from slot_search_loop_bound [OF _ p assms(1) v, of t] show ?thesis
    unfolding e by simp
qed

section \<open>The table engine: lookup and insertion\<close>

lemma upt_0_4: "[0..<4] = [0, 1, 2, 3::nat]"
  by (simp add: upt_rec)

lemma replicate_numeral: "replicate (numeral k) x = x # replicate (pred_numeral k) x"
  by (simp add: numeral_eq_Suc)

lemmas table_eval =
  slot_search_def slot_search_loop.simps dequeue_def empty_q_def b_queue_init_def upt_0_4
  bucket_at_def slot_per_bucket_def MAX_BFS_PATH_LEN_def full_q_def bq_last_def enqueue_def
  Let_def MAX_CUCKOO_COUNT_eq alt_index_def index_hash_def hashmask_def hashsize_def
  murmur_const_def cuckoopath_search_def follow_path.simps CuckooRecords_init_def
  replicate_numeral hashed_key_def cuckoopath_move_def occupied_def setK_def eraseK_def
  compute_buckets_def hashpower_def try_find_insert_bucket_def cuckoo_insert_def
  cuckoo_insert_loop_def insert_ht_def add_to_bucket_def cuckoo_hashtable_init_def
  find_ht_def cuckoo_find_def try_read_from_bucket_def size_ht_def run_cuckoo_def
  key_at_def

lemma try_find_insert_loop_dup:
  "i \<in> set is \<Longrightarrow> b ! i = Some key \<Longrightarrow>
   \<exists>j \<in> set is. b ! j = Some key \<and> try_find_insert_loop b key is slot = (False, int j)"
proof (induction "is" arbitrary: slot)
  case Nil
  then show ?case by simp
next
  case (Cons a "is")
  show ?case
  proof (cases "b ! a = Some key")
    case True
    then show ?thesis by simp
  next
    case False
    with Cons.prems have "i \<in> set is" by auto
    from Cons.IH [OF this Cons.prems(2)] False show ?thesis
      by (cases "b ! a") auto
  qed
qed

lemma try_find_insert_loop_nodup:
  "\<forall>i \<in> set is. b ! i \<noteq> Some key \<Longrightarrow>
   \<exists>r. try_find_insert_loop b key is slot = (True, r) \<and>
       (r = slot \<or> (\<exists>i \<in> set is. r = int i \<and> b ! i = None)) \<and>
       ((\<forall>i \<in> set is. b ! i \<noteq> None) \<longrightarrow> r = slot)"
proof (induction "is" arbitrary: slot)
  case Nil
  then show ?case by simp
next
  case (Cons a "is")
  then have ih: "\<And>slot. \<exists>r. try_find_insert_loop b key is slot = (True, r) \<and>
       (r = slot \<or> (\<exists>i \<in> set is. r = int i \<and> b ! i = None)) \<and>
       ((\<forall>i \<in> set is. b ! i \<noteq> None) \<longrightarrow> r = slot)"
    by simp
  from Cons.prems have na: "b ! a \<noteq> Some key" by simp
  show ?case
  proof (cases "b ! a")
    case None
    from ih [of "int a"] None show ?thesis by auto
  next
    case (Some k)
    with na have "k \<noteq> key" by simp
    with ih [of slot] Some show ?thesis by auto
  qed
qed

lemma try_find_insert_bucket_dup:
  assumes "holds_key b key"
  shows "\<exists>s < slot_per_bucket. b ! s = Some key \<and>
           try_find_insert_bucket b hv key = (False, int s)"
proof -
  from assms obtain i where "i \<in> set [0..<slot_per_bucket]" "b ! i = Some key"
    by (auto simp: holds_key_def)
  from try_find_insert_loop_dup [OF this, of "- 1"] show ?thesis
    by (auto simp: try_find_insert_bucket_def)
qed

lemma try_find_insert_bucket_nodup:
  assumes "\<not> holds_key b key"
  shows "\<exists>r. try_find_insert_bucket b hv key = (True, r) \<and>
           (r = - 1 \<or> (\<exists>s < slot_per_bucket. r = int s \<and> b ! s = None)) \<and>
           ((\<forall>s < slot_per_bucket. b ! s \<noteq> None) \<longrightarrow> r = - 1)"
proof -
  from assms have "\<forall>i \<in> set [0..<slot_per_bucket]. b ! i \<noteq> Some key"
    by (auto simp: holds_key_def)
  from try_find_insert_loop_nodup [OF this, of "- 1"] show ?thesis
    by (auto simp: try_find_insert_bucket_def)
qed

lemma insert_ht_duplicate:
  assumes "b = compute_buckets t (hashed_key hf key)"
    and "holds_key (bucket_at t (tb_i1 b)) key \<or> holds_key (bucket_at t (tb_i2 b)) key"
  shows "\<exists>i s. insert_ht hf t key = Some (Inr ((i, of_nat s), t)) \<and> s < slot_per_bucket \<and>
           (i = tb_i1 b \<or> i = tb_i2 b) \<and> bucket_at t i ! s = Some key"
proof (cases "holds_key (bucket_at t (tb_i1 b)) key")
  case True
  from try_find_insert_bucket_dup [OF True, of "hashed_key hf key"]
  obtain s where s: "s < slot_per_bucket" "bucket_at t (tb_i1 b) ! s = Some key"
    "try_find_insert_bucket (bucket_at t (tb_i1 b)) (hashed_key hf key) key = (False, int s)"
    by blast
  have "insert_ht hf t key = Some (Inr ((tb_i1 b, of_nat s), t))"
    using s(3) assms(1)
    by (simp add: insert_ht_def cuckoo_insert_loop_def cuckoo_insert_def Let_def)
  with s show ?thesis by blast
next
  case False
  with assms(2) have h2: "holds_key (bucket_at t (tb_i2 b)) key" by simp
  from try_find_insert_bucket_nodup [OF False, of "hashed_key hf key"]
  obtain r where r: "try_find_insert_bucket (bucket_at t (tb_i1 b)) (hashed_key hf key) key = (True, r)"
    by blast
  from try_find_insert_bucket_dup [OF h2, of "hashed_key hf key"]
  obtain s where s: "s < slot_per_bucket" "bucket_at t (tb_i2 b) ! s = Some key"
    "try_find_insert_bucket (bucket_at t (tb_i2 b)) (hashed_key hf key) key = (False, int s)"
    by blast
  have "insert_ht hf t key = Some (Inr ((tb_i2 b, of_nat s), t))"
    using r s(3) assms(1)
    by (simp add: insert_ht_def cuckoo_insert_loop_def cuckoo_insert_def Let_def)
  with s show ?thesis by blast
qed


lemma compute_buckets_less:
  "unat (tb_i1 (compute_buckets t hv)) < 2 ^ ht_hashpower t \<and>
   unat (tb_i2 (compute_buckets t hv)) < 2 ^ ht_hashpower t"
  by (simp add: compute_buckets_def Let_def hashpower_def index_hash_less alt_index_less)









lemma try_find_empty: "try_find_insert_bucket [None, None, None, None] hv key = (True, 3)"
  by (simp add: try_find_insert_bucket_def slot_per_bucket_def upt_0_4)

lemma try_find_last: "try_find_insert_bucket [None, None, None, Some key] hv key = (False, 3)"
  by (simp add: try_find_insert_bucket_def slot_per_bucket_def upt_0_4)

lemma insert_twice:
  fixes hf :: hasher and key :: key_type and hp :: nat
  assumes "hp < 62"
  defines "t0 \<equiv> cuckoo_hashtable_init hp"
  defines "i1 \<equiv> index_hash hp (hashed_key hf key)"
  defines "t1 \<equiv> (setK t0 i1 3 key)\<lparr>ht_num_items := 1\<rparr>"
  shows "insert_ht hf t0 key = Some (Inr ((i1, 3), t1)) \<and>
         insert_ht hf t1 key = Some (Inr ((i1, 3), t1)) \<and> size_ht t1 = 1"
proof -
  let ?hv = "hashed_key hf key"
  have l: "unat i1 < 2 ^ hp" unfolding i1_def by (rule index_hash_less)
  have i1: "tb_i1 (compute_buckets t0 ?hv) = i1" "tb_i1 (compute_buckets t1 ?hv) = i1"
    by (simp_all add: compute_buckets_def Let_def hashpower_def t0_def t1_def i1_def
        cuckoo_hashtable_init_def setK_def)
  have b0: "bucket_at t0 i = [None, None, None, None]" if "unat i < 2 ^ hp" for i
    using that
    by (simp add: bucket_at_def t0_def cuckoo_hashtable_init_def slot_per_bucket_def
        replicate_numeral)
  have b1: "bucket_at t1 i1 = [None, None, None, Some key]"
    using l b0 [OF l]
    by (simp add: t1_def setK_def bucket_at_def t0_def cuckoo_hashtable_init_def)
  have i2: "unat (tb_i2 (compute_buckets t0 ?hv)) < 2 ^ hp"
    using compute_buckets_less [of t0 ?hv] by (simp add: t0_def cuckoo_hashtable_init_def)
  have "insert_ht hf t0 key = Some (Inr ((i1, 3), t1))"
    using i1(1) b0 [OF l] b0 [OF i2] try_find_empty
    by (simp add: insert_ht_def cuckoo_insert_loop_def cuckoo_insert_def Let_def
        add_to_bucket_def t1_def t0_def cuckoo_hashtable_init_def)
  moreover have "insert_ht hf t1 key = Some (Inr ((i1, 3), t1))"
    using i1(2) b1 try_find_last
    by (simp add: insert_ht_def cuckoo_insert_loop_def cuckoo_insert_def Let_def)
  moreover have "size_ht t1 = 1" by (simp add: size_ht_def t1_def)
  ultimately show ?thesis by simp
qed

text \<open>
  \<open>insert\<close> and \<open>paired_insert\<close> differ in what they return only: both leave the same
  table, and the location that \<open>insert\<close> returns is the top of the stack that
  \<open>paired_insert\<close> returns.
\<close>

lemma insert_ht_paired_insert:
  "insert_ht hf t key =
     map_option (map_sum id (\<lambda>(tr, t'). (hd tr, t'))) (paired_insert hf t key)"
  by (simp add: insert_ht_def paired_insert_def Let_def
      split: option.splits sum.splits prod.splits)

section \<open>The table engine: a search that never ends\<close>

lemma s1: "cuckoopath_search times3 table_t3 1 CuckooRecords_init 1 1 = Some (Inr (1, path_t3))"
  by (simp add: table_eval table_t3_def path_t3_def times3_def)
lemma s2: "cuckoopath_search times3 table_t3 1 path_t3 1 1 = Some (Inr (1, path_t3))"
  by (simp add: table_eval table_t3_def path_t3_def times3_def)
lemma m1: "cuckoopath_move times3 table_t3 1 path_t3 1 \<lparr> tb_i1 = 1, tb_i2 = 1 \<rparr> tr = Inr (False, table_t3, tr)"
  by (simp add: table_eval table_t3_def path_t3_def times3_def)
lemma cb: "compute_buckets table_t3 (hashed_key times3 9) = \<lparr> tb_i1 = 1, tb_i2 = 1 \<rparr>"
  by (simp add: table_eval table_t3_def times3_def)
lemma ins4: "insert_all times3 (cuckoo_hashtable_init 1) [1, 3, 5, 7] = Some (Inr table_t3)"
  by (simp add: table_eval table_t3_def times3_def)

lemma run_cuckoo_loop_diverges:
  assumes s: "cuckoopath_search hf t hp path (tb_i1 b) (tb_i2 b) = Some (Inr (d, path))"
    and d: "0 \<le> d"
    and m: "cuckoopath_move hf t hp path (nat d) b tr = Inr (False, t, tr)"
  shows "run_cuckoo_loop hf t hp path b tr = None"
proof (rule ccontr)
  assume "run_cuckoo_loop hf t hp path b tr \<noteq> None"
  then obtain y where y: "run_cuckoo_loop hf t hp path b tr = Some y" by auto
  have "(hf, t, hp, path, b, tr) \<noteq> (hf, t, hp, path, b, tr)"
  proof (rule run_cuckoo_loop.raw_induct
      [where P = "\<lambda>hf' t' hp' path' b' tr' y. (hf', t', hp', path', b', tr') \<noteq> (hf, t, hp, path, b, tr)",
       OF _ y], goal_cases)
    case (1 f hf' t' hp' path' b' tr' y')
    show ?case
    proof
      assume eq: "(hf', t', hp', path', b', tr') = (hf, t, hp, path, b, tr)"
      with 1(2) s d m have "f hf t hp path b tr = Some y'" by simp
      from 1(1) [OF this] show False by simp
    qed
  qed
  then show False by simp
qed

lemma t3_diverges: "insert_ht times3 table_t3 9 = None"
proof -
  have "run_cuckoo_loop times3 table_t3 1 CuckooRecords_init \<lparr> tb_i1 = 1, tb_i2 = 1 \<rparr> [] =
        run_cuckoo_loop times3 table_t3 1 path_t3 \<lparr> tb_i1 = 1, tb_i2 = 1 \<rparr> []"
    using s1 m1 by (subst run_cuckoo_loop.simps) simp
  also have "\<dots> = None"
  proof -
    let ?b = "\<lparr> tb_i1 = 1, tb_i2 = 1 \<rparr>"
    have a: "cuckoopath_search times3 table_t3 1 path_t3 (tb_i1 ?b) (tb_i2 ?b) = Some (Inr (1, path_t3))"
      using s2 by simp
    have b: "cuckoopath_move times3 table_t3 1 path_t3 (nat 1) ?b [] = Inr (False, table_t3, [])"
      using m1 [of "[]"] by simp
    show ?thesis by (rule run_cuckoo_loop_diverges [OF a _ b]) simp
  qed
  finally have r: "run_cuckoo times3 table_t3 \<lparr> tb_i1 = 1, tb_i2 = 1 \<rparr> [] = None"
    by (simp add: run_cuckoo_def hashpower_def table_t3_def)
  have tf: "try_find_insert_bucket (bucket_at table_t3 1) hv 9 = (True, - 1)" for hv
    by (simp add: table_eval table_t3_def)
  show ?thesis
    using cb r tf by (simp add: insert_ht_def cuckoo_insert_loop_def cuckoo_insert_def)
qed

section \<open>The table engine: stored keys stay in their buckets\<close>

lemma keys_sub_refl: "keys_sub t t"
  unfolding keys_sub_def by blast

lemma keys_sub_trans: "keys_sub t'' t' \<Longrightarrow> keys_sub t' t \<Longrightarrow> keys_sub t'' t"
  unfolding keys_sub_def by blast

lemma candidate_alt: "candidate hp hv i \<Longrightarrow> candidate hp hv (alt_index hp hv i)"
  using alt_index_twice [OF index_hash_less, of hp hv hv]
  by (auto simp: candidate_def)

lemma candidate_less: "candidate hp hv i \<Longrightarrow> unat i < 2 ^ hp"
  by (auto simp: candidate_def index_hash_less alt_index_less)

lemma wf_bucket_length:
  assumes "wf_table t" "unat i < 2 ^ ht_hashpower t"
  shows "length (bucket_at t i) = slot_per_bucket"
proof -
  from assms have "unat i < length (ht_buckets t)" by (simp add: wf_table_def)
  then have "bucket_at t i \<in> set (ht_buckets t)" by (simp add: bucket_at_def)
  with assms(1) show ?thesis by (simp add: wf_table_def)
qed

lemma wf_table_update:
  assumes "wf_table t" "length b = slot_per_bucket"
  shows "wf_table (t\<lparr>ht_buckets := (ht_buckets t)[n := b]\<rparr>)"
proof -
  have "set ((ht_buckets t)[n := b]) \<subseteq> insert b (set (ht_buckets t))"
    by (rule set_update_subset_insert)
  with assms show ?thesis by (auto simp: wf_table_def)
qed

lemma wf_table_setK:
  assumes "wf_table t" "unat i < 2 ^ ht_hashpower t"
  shows "wf_table (setK t i s k)"
  unfolding setK_def
  by (rule wf_table_update [OF assms(1)]) (simp add: wf_bucket_length [OF assms])

lemma wf_table_eraseK:
  assumes "wf_table t" "unat i < 2 ^ ht_hashpower t"
  shows "wf_table (eraseK t i s)"
  unfolding eraseK_def
  by (rule wf_table_update [OF assms(1)]) (simp add: wf_bucket_length [OF assms])

lemma bucket_at_update:
  assumes "unat i < length (ht_buckets t)"
  shows "bucket_at (t\<lparr>ht_buckets := (ht_buckets t)[unat i := b]\<rparr>) j =
         (if j = i then b else bucket_at t j)"
  using assms by (auto simp: bucket_at_def nth_list_update word_unat_eq_iff)

lemma stored_setK:
  assumes "wf_table t" "unat i < 2 ^ ht_hashpower t" "s < slot_per_bucket"
  shows "stored (setK t i s k) j r k' \<longleftrightarrow>
         (if j = i \<and> r = s then k' = k else stored t j r k')"
proof -
  from assms have l: "unat i < length (ht_buckets t)" by (simp add: wf_table_def)
  have b: "bucket_at (setK t i s k) j = (if j = i then (bucket_at t i)[s := Some k] else bucket_at t j)"
    unfolding setK_def by (rule bucket_at_update [OF l])
  have hp: "ht_hashpower (setK t i s k) = ht_hashpower t" by (simp add: setK_def)
  from wf_bucket_length [OF assms(1,2)] assms(3) have s: "s < length (bucket_at t i)" by simp
  show ?thesis
    using assms(2,3) s by (auto simp: stored_def b hp nth_list_update)
qed

lemma stored_eraseK:
  assumes "wf_table t" "unat i < 2 ^ ht_hashpower t" "s < slot_per_bucket"
  shows "stored (eraseK t i s) j r k' \<longleftrightarrow>
         (if j = i \<and> r = s then False else stored t j r k')"
proof -
  from assms have l: "unat i < length (ht_buckets t)" by (simp add: wf_table_def)
  have b: "bucket_at (eraseK t i s) j = (if j = i then (bucket_at t i)[s := None] else bucket_at t j)"
    unfolding eraseK_def by (rule bucket_at_update [OF l])
  have hp: "ht_hashpower (eraseK t i s) = ht_hashpower t" by (simp add: eraseK_def)
  from wf_bucket_length [OF assms(1,2)] assms(3) have s: "s < length (bucket_at t i)" by simp
  show ?thesis
    using assms(2,3) s by (auto simp: stored_def b hp nth_list_update)
qed

lemma table_inv_init:
  assumes "hp < 62"
  shows "table_inv hf (cuckoo_hashtable_init hp)"
proof -
  have "\<not> stored (cuckoo_hashtable_init hp) i s k" for i s k
    by (simp add: stored_def cuckoo_hashtable_init_def bucket_at_def)
  moreover have "wf_table (cuckoo_hashtable_init hp)"
    using assms by (simp add: wf_table_def cuckoo_hashtable_init_def)
  ultimately show ?thesis by (simp add: table_inv_def)
qed

lemma table_inv_num_items: "table_inv hf (t\<lparr>ht_num_items := n\<rparr>) = table_inv hf t"
  by (simp add: table_inv_def wf_table_def stored_def bucket_at_def)

lemma scan_slots_depth:
  assumes "scan_slots t hp x st rest q = Inr (r, q')"
    and "depth_ok x" and "\<forall>y \<in> set (bq_slots q). depth_ok y"
  shows "(\<forall>y \<in> set (bq_slots q'). depth_ok y) \<and> (\<forall>x'. r = Some x' \<longrightarrow> depth_ok x')"
  using assms
proof (induction rest arbitrary: q)
  case Nil
  then show ?case by simp
next
  case (Cons i rest)
  let ?slot = "(st + i) mod slot_per_bucket"
  show ?case
  proof (cases "bucket_at t (bs_bucket x) ! ?slot")
    case None
    with Cons.prems show ?thesis by (auto simp: Let_def depth_ok_def)
  next
    case (Some hv)
    show ?thesis
    proof (cases "bs_depth x < int MAX_BFS_PATH_LEN - 1")
      case False
      with Some Cons.prems(1) have "scan_slots t hp x st rest q = Inr (r, q')"
        by (simp add: Let_def)
      from Cons.IH [OF this Cons.prems(2,3)] show ?thesis .
    next
      case True
      let ?y = "\<lparr> bs_bucket = alt_index hp hv (bs_bucket x),
                  bs_pathcode = bs_pathcode x * of_nat slot_per_bucket + of_nat ?slot,
                  bs_depth = bs_depth x + 1 \<rparr>"
      let ?q = "q\<lparr>bq_slots := bq_slots q @ [?y]\<rparr>"
      from Some True Cons.prems(1) have nf: "\<not> full_q q"
        by (auto simp: Let_def split: if_splits)
      with Some True Cons.prems(1) have e: "scan_slots t hp x st rest ?q = Inr (r, q')"
        by (simp add: Let_def enqueue_def)
      have "depth_ok ?y" using True Cons.prems(2) by (simp add: depth_ok_def)
      with Cons.prems(3) have "\<forall>y \<in> set (bq_slots ?q). depth_ok y" by simp
      from Cons.IH [OF e Cons.prems(2) this] show ?thesis .
    qed
  qed
qed

lemma slot_search_loop_depth:
  assumes "slot_search_loop t hp q = Some (Inr (x, q'))"
    and "\<forall>y \<in> set (bq_slots q). depth_ok y"
  shows "bs_depth x = - 1 \<or> depth_ok x"
proof -
  have "(\<forall>y \<in> set (bq_slots q). depth_ok y) \<longrightarrow>
        (\<forall>x' q''. (Inr (x, q') :: exn + (b_slot \<times> b_queue)) = Inr (x', q'') \<longrightarrow>
           bs_depth x' = - 1 \<or> depth_ok x')"
  proof (rule slot_search_loop.raw_induct
      [where P = "\<lambda>t hp q y. (\<forall>z \<in> set (bq_slots q). depth_ok z) \<longrightarrow>
          (\<forall>x' q''. y = Inr (x', q'') \<longrightarrow> bs_depth x' = - 1 \<or> depth_ok x')",
       OF _ assms(1)], goal_cases)
    case (1 f t hp q y)
    show ?case
    proof (intro impI allI)
      fix x' q''
      assume ok: "\<forall>z \<in> set (bq_slots q). depth_ok z" and y: "y = Inr (x', q'')"
      show "bs_depth x' = - 1 \<or> depth_ok x'"
      proof (cases "empty_q q")
        case True
        with 1(2) y show ?thesis by auto
      next
        case False
        with 1(2) y obtain z q1 where dq: "dequeue q = Inr (z, q1)"
          by (cases "dequeue q") auto
        then have z: "z = bq_slots q ! bq_first q" and lt: "bq_first q < length (bq_slots q)"
          and q1: "q1 = q\<lparr>bq_first := bq_first q + 1\<rparr>"
          by (auto simp: dequeue_def bq_last_def split: if_splits)
        from ok z lt have zok: "depth_ok z" by simp
        from ok q1 have ok1: "\<forall>y \<in> set (bq_slots q1). depth_ok y" by simp
        let ?st = "unat (bs_pathcode z) mod slot_per_bucket"
        from 1(2) False dq y obtain r q2 where
          sc: "scan_slots t hp z ?st [0..<slot_per_bucket] q1 = Inr (r, q2)"
          by (cases "scan_slots t hp z ?st [0..<slot_per_bucket] q1") (auto simp: Let_def)
        from scan_slots_depth [OF sc zok ok1]
        have ok2: "\<forall>y \<in> set (bq_slots q2). depth_ok y"
          and rr: "\<forall>x'. r = Some x' \<longrightarrow> depth_ok x'" by blast+
        show ?thesis
        proof (cases r)
          case None
          with 1(2) False dq sc y have "f t hp q2 = Some (Inr (x', q''))"
            by (simp add: Let_def)
          from 1(1) [OF this] ok2 show ?thesis by blast
        next
          case (Some x'')
          with 1(2) False dq sc y have "x'' = x'" by (simp add: Let_def)
          with rr Some show ?thesis by blast
        qed
      qed
    qed
  qed
  with assms(2) show ?thesis by blast
qed

lemma slot_search_depth:
  assumes "slot_search t hp i1 i2 = Some (Inr (x, q))"
  shows "bs_depth x = - 1 \<or> depth_ok x"
proof -
  let ?r1 = "\<lparr> bs_bucket = i1, bs_pathcode = 0, bs_depth = 0 \<rparr>"
  let ?r2 = "\<lparr> bs_bucket = i2, bs_pathcode = 1, bs_depth = 0 \<rparr>"
  let ?q = "\<lparr> bq_slots = [?r1, ?r2], bq_first = 0 \<rparr>"
  have e: "slot_search t hp i1 i2 = slot_search_loop t hp ?q"
    by (simp add: slot_search_def enqueue_def full_q_def bq_last_def b_queue_init_def
        MAX_CUCKOO_COUNT_eq)
  have "\<forall>y \<in> set (bq_slots ?q). depth_ok y"
    by (simp add: depth_ok_def MAX_BFS_PATH_LEN_def)
  from slot_search_loop_depth [OF assms [unfolded e] this] show ?thesis .
qed

lemma slot_of_pathcode:
  "unat (ucast (pc mod of_nat slot_per_bucket :: 16 word) :: size_type) < slot_per_bucket"
proof -
  have a: "unat (pc mod 4) < 4"
    by (simp add: unat_mod)
  have "unat (ucast (pc mod 4) :: size_type) = take_bit 64 (unat (pc mod 4))"
    by (simp add: unsigned_ucast_eq)
  also from a have "\<dots> = unat (pc mod 4)"
    by (simp add: take_bit_nat_eq_self)
  finally show ?thesis using a by (simp add: slot_per_bucket_def)
qed

lemma decode_slots_slots:
  assumes "decode_slots path pc n = (path', pc')" and "n < length path"
  shows "length path' = length path \<and>
         (\<forall>j \<le> n. unat (cr_slot (path' ! j)) < slot_per_bucket) \<and>
         (\<forall>j > n. path' ! j = path ! j)"
  using assms
proof (induction n arbitrary: path pc)
  case 0
  then show ?case by (auto simp: slot_of_pathcode)
next
  case (Suc n)
  let ?p = "path[Suc n := (path ! Suc n)\<lparr>cr_slot := ucast (pc mod of_nat slot_per_bucket)\<rparr>]"
  from Suc.prems(1) have d: "decode_slots ?p (pc div of_nat slot_per_bucket) n = (path', pc')"
    by simp
  from Suc.prems(2) have l: "n < length ?p" by simp
  from Suc.IH [OF d l]
  have a: "length path' = length ?p"
    and b: "\<forall>j \<le> n. unat (cr_slot (path' ! j)) < slot_per_bucket"
    and c: "\<forall>j > n. path' ! j = ?p ! j" by blast+
  from c Suc.prems(2) have "path' ! Suc n = (path ! Suc n)\<lparr>cr_slot := ucast (pc mod of_nat slot_per_bucket)\<rparr>"
    by simp
  then have s: "unat (cr_slot (path' ! Suc n)) < slot_per_bucket"
    by (simp add: slot_of_pathcode)
  have "unat (cr_slot (path' ! j)) < slot_per_bucket" if "j \<le> Suc n" for j
  proof (cases "j = Suc n")
    case True
    with s show ?thesis by simp
  next
    case False
    with that have "j \<le> n" by simp
    with b show ?thesis by blast
  qed
  moreover have "path' ! j = path ! j" if "j > Suc n" for j
  proof -
    from that c have "path' ! j = ?p ! j" by simp
    with that show ?thesis by simp
  qed
  ultimately show ?case using a by simp
qed

lemma follow_path_ok:
  assumes "follow_path hf t hp path i depth = Inr (d, path')"
    and "0 < i" and "depth < length path"
    and "\<forall>j < i. unat (cr_bucket (path ! j)) < 2 ^ hp"
    and "\<forall>j \<le> depth. unat (cr_slot (path ! j)) < slot_per_bucket"
    and "\<forall>j. Suc j < i \<longrightarrow>
           cr_bucket (path ! Suc j) = alt_index hp (cr_hv (path ! j)) (cr_bucket (path ! j))"
  shows "0 \<le> d \<and> path_ok hp path' (nat d) \<and> length path' = length path"
  using assms
proof (induction hf t hp path i depth rule: follow_path.induct)
  case (1 hf t hp path i depth)
  note f = "1.prems"(1) [unfolded follow_path.simps [of hf t hp path i depth]]
  show ?case
  proof (cases "i \<le> depth")
    case False
    with f have e: "d = int depth" "path' = path" by simp_all
    from False have lt: "depth < i" by simp
    have "path_ok hp path depth"
      unfolding path_ok_def
    proof (intro conjI allI impI)
      show "depth < length path" by (rule "1.prems"(3))
    next
      fix j assume "j \<le> depth"
      with lt "1.prems"(4) show "unat (cr_bucket (path ! j)) < 2 ^ hp" by simp
    next
      fix j assume "j \<le> depth"
      with "1.prems"(5) show "unat (cr_slot (path ! j)) < slot_per_bucket" by simp
    next
      fix j assume "j < depth"
      with lt have "Suc j < i" by simp
      with "1.prems"(6)
      show "cr_bucket (path ! Suc j) = alt_index hp (cr_hv (path ! j)) (cr_bucket (path ! j))"
        by blast
    qed
    with e show ?thesis by simp
  next
    case True
    let ?prev = "path ! (i - 1)"
    let ?path1 = "path[i := (path ! i)\<lparr>cr_bucket := alt_index hp (cr_hv ?prev) (cr_bucket ?prev)\<rparr>]"
    let ?curr = "?path1 ! i"
    from True "1.prems"(3) have il: "i < length path" by simp
    from f True have cand: "cr_bucket ?prev = index_hash hp (cr_hv ?prev) \<or>
                   cr_bucket ?prev = alt_index hp (cr_hv ?prev) (index_hash hp (cr_hv ?prev))"
      by (auto simp: Let_def split: if_splits)
    have b1: "\<forall>j < Suc i. unat (cr_bucket (?path1 ! j)) < 2 ^ hp"
    proof (intro allI impI)
      fix j assume "j < Suc i"
      show "unat (cr_bucket (?path1 ! j)) < 2 ^ hp"
      proof (cases "j = i")
        case True
        with il show ?thesis by (simp add: alt_index_less)
      next
        case False
        with \<open>j < Suc i\<close> have "j < i" by simp
        with "1.prems"(4) False show ?thesis by simp
      qed
    qed
    have s1: "\<forall>j \<le> depth. unat (cr_slot (?path1 ! j)) < slot_per_bucket"
    proof (intro allI impI)
      fix j assume "j \<le> depth"
      with "1.prems"(5) have "unat (cr_slot (path ! j)) < slot_per_bucket" by simp
      then show "unat (cr_slot (?path1 ! j)) < slot_per_bucket"
        using il by (cases "j = i") simp_all
    qed
    have l1: "\<forall>j. Suc j < Suc i \<longrightarrow>
           cr_bucket (?path1 ! Suc j) = alt_index hp (cr_hv (?path1 ! j)) (cr_bucket (?path1 ! j))"
    proof (intro allI impI)
      fix j assume j: "Suc j < Suc i"
      show "cr_bucket (?path1 ! Suc j) = alt_index hp (cr_hv (?path1 ! j)) (cr_bucket (?path1 ! j))"
      proof (cases "Suc j = i")
        case True
        then have "j = i - 1" "j \<noteq> i" by simp_all
        with il True show ?thesis by simp
      next
        case False
        with j have "Suc j < i" by simp
        with "1.prems"(6) show ?thesis by simp
      qed
    qed
    from f True cand
    have f': "(case bucket_at t (cr_bucket ?curr) ! unat (cr_slot ?curr) of
                 None \<Rightarrow> Inr (int i, ?path1)
               | Some k \<Rightarrow>
                   follow_path hf t hp (?path1[i := ?curr\<lparr>cr_hv := hashed_key hf k\<rparr>])
                     (i + 1) depth) = Inr (d, path')"
      by (simp only: if_True Let_def not_True_eq_False if_False)
    show ?thesis
    proof (cases "bucket_at t (cr_bucket ?curr) ! unat (cr_slot ?curr)")
      case None
      with f' have e: "d = int i" "path' = ?path1" by simp_all
      have "path_ok hp ?path1 i"
        unfolding path_ok_def using il b1 s1 l1 True by simp
      with e show ?thesis by simp
    next
      case (Some k)
      let ?path2 = "?path1[i := ?curr\<lparr>cr_hv := hashed_key hf k\<rparr>]"
      from f' Some
      have r: "follow_path hf t hp ?path2 (i + 1) depth = Inr (d, path')"
        by simp
      have b2: "\<forall>j < i + 1. unat (cr_bucket (?path2 ! j)) < 2 ^ hp"
      proof (intro allI impI)
        fix j assume "j < i + 1"
        with b1 have "unat (cr_bucket (?path1 ! j)) < 2 ^ hp" by simp
        then show "unat (cr_bucket (?path2 ! j)) < 2 ^ hp"
          using il by (cases "j = i") simp_all
      qed
      have s2: "\<forall>j \<le> depth. unat (cr_slot (?path2 ! j)) < slot_per_bucket"
      proof (intro allI impI)
        fix j assume "j \<le> depth"
        with s1 have "unat (cr_slot (?path1 ! j)) < slot_per_bucket" by simp
        then show "unat (cr_slot (?path2 ! j)) < slot_per_bucket"
          using il by (cases "j = i") simp_all
      qed
      have l2: "\<forall>j. Suc j < i + 1 \<longrightarrow>
           cr_bucket (?path2 ! Suc j) = alt_index hp (cr_hv (?path2 ! j)) (cr_bucket (?path2 ! j))"
      proof (intro allI impI)
        fix j assume j: "Suc j < i + 1"
        with l1 have a: "cr_bucket (?path1 ! Suc j) =
            alt_index hp (cr_hv (?path1 ! j)) (cr_bucket (?path1 ! j))" by simp
        from j have ji: "j \<noteq> i" by simp
        show "cr_bucket (?path2 ! Suc j) = alt_index hp (cr_hv (?path2 ! j)) (cr_bucket (?path2 ! j))"
        proof (cases "Suc j = i")
          case True
          with a ji il show ?thesis by simp
        next
          case False
          with a ji show ?thesis by simp
        qed
      qed
      have d2: "depth < length ?path2" using "1.prems"(3) by simp
      have notno: "\<not> \<not> (cr_bucket ?prev = index_hash hp (cr_hv ?prev) \<or>
                   cr_bucket ?prev = alt_index hp (cr_hv ?prev) (index_hash hp (cr_hv ?prev)))"
        using cand by simp
      from "1.IH" [OF True refl notno refl refl Some r _ d2 b2 s2 l2]
      show ?thesis by simp
    qed
  qed
qed

lemma path_ok_less: "path_ok hp path (Suc d) \<Longrightarrow> path_ok hp path d"
  by (simp add: path_ok_def)

lemma cuckoopath_search_ok:
  assumes cs: "cuckoopath_search hf t hp path0 i1 i2 = Some (Inr (d, path))"
    and len: "length path0 = MAX_BFS_PATH_LEN"
    and i1: "unat i1 < 2 ^ hp" and i2: "unat i2 < 2 ^ hp"
  shows "length path = MAX_BFS_PATH_LEN \<and> (d < 0 \<or> path_ok hp path (nat d))"
proof -
  from cs obtain x q where ss: "slot_search t hp i1 i2 = Some (Inr (x, q))"
    by (auto simp: cuckoopath_search_def split: option.splits sum.splits)
  show ?thesis
  proof (cases "bs_depth x = - 1")
    case True
    with cs ss len show ?thesis by (simp add: cuckoopath_search_def)
  next
    case False
    with slot_search_depth [OF ss] have dk: "depth_ok x" by simp
    let ?n = "nat (bs_depth x)"
    from dk len have n: "?n < length path0" unfolding depth_ok_def by arith
    obtain path1 pc where dc: "decode_slots path0 (bs_pathcode x) ?n = (path1, pc)"
      by (cases "decode_slots path0 (bs_pathcode x) ?n") auto
    from decode_slots_slots [OF dc n]
    have l1: "length path1 = length path0"
      and sl1: "\<forall>j \<le> ?n. unat (cr_slot (path1 ! j)) < slot_per_bucket" by blast+
    let ?path2 = "path1[0 := (path1 ! 0)\<lparr>cr_bucket := (if pc = 0 then i1 else i2)\<rparr>]"
    let ?first = "?path2 ! 0"
    from l1 len have pos: "0 < length path1" by (simp add: MAX_BFS_PATH_LEN_def)
    from cs ss False dc
    have cs': "(case bucket_at t (cr_bucket ?first) ! unat (cr_slot ?first) of
                  None \<Rightarrow> Some (Inr (0, ?path2))
                | Some k \<Rightarrow>
                    Some (follow_path hf t hp (?path2[0 := ?first\<lparr>cr_hv := hashed_key hf k\<rparr>])
                            1 ?n)) = Some (Inr (d, path))"
      by (simp add: cuckoopath_search_def Let_def split: if_splits)
    have b2: "unat (cr_bucket (?path2 ! 0)) < 2 ^ hp"
      using pos i1 i2 by simp
    have s2: "\<forall>j \<le> ?n. unat (cr_slot (?path2 ! j)) < slot_per_bucket"
    proof (intro allI impI)
      fix j assume "j \<le> ?n"
      with sl1 have "unat (cr_slot (path1 ! j)) < slot_per_bucket" by simp
      then show "unat (cr_slot (?path2 ! j)) < slot_per_bucket"
        using pos by (cases j) simp_all
    qed
    show ?thesis
    proof (cases "bucket_at t (cr_bucket ?first) ! unat (cr_slot ?first)")
      case None
      with cs' have e: "d = 0" "path = ?path2" by simp_all
      have s20: "unat (cr_slot (?path2 ! 0)) < slot_per_bucket"
        using s2 [rule_format, of 0] by simp
      have "path_ok hp ?path2 0"
        unfolding path_ok_def using pos b2 s20 by simp
      with e l1 len show ?thesis by simp
    next
      case (Some k)
      let ?path3 = "?path2[0 := ?first\<lparr>cr_hv := hashed_key hf k\<rparr>]"
      from cs' Some have fp: "follow_path hf t hp ?path3 1 ?n = Inr (d, path)" by simp
      have b3: "\<forall>j < 1. unat (cr_bucket (?path3 ! j)) < 2 ^ hp"
        using pos b2 by simp
      have s3: "\<forall>j \<le> ?n. unat (cr_slot (?path3 ! j)) < slot_per_bucket"
      proof (intro allI impI)
        fix j assume "j \<le> ?n"
        with s2 have "unat (cr_slot (?path2 ! j)) < slot_per_bucket" by simp
        then show "unat (cr_slot (?path3 ! j)) < slot_per_bucket"
          using pos by (cases j) simp_all
      qed
      have n3: "?n < length ?path3" using n l1 by simp
      have l3: "\<forall>j. Suc j < 1 \<longrightarrow>
           cr_bucket (?path3 ! Suc j) = alt_index hp (cr_hv (?path3 ! j)) (cr_bucket (?path3 ! j))"
        by simp
      from follow_path_ok [OF fp _ n3 b3 s3 l3]
      have "0 \<le> d \<and> path_ok hp path (nat d) \<and> length path = length ?path3" by simp
      with l1 len show ?thesis by simp
    qed
  qed
qed

lemma move_step_inv:
  assumes inv: "table_inv hf t"
    and fr: "stored t fi fs k"
    and to: "unat ti < 2 ^ ht_hashpower t" "ts < slot_per_bucket"
    and em: "\<not> occupied (bucket_at t ti) ts"
    and al: "ti = alt_index (ht_hashpower t) (hashed_key hf k) fi"
  shows "table_inv hf (eraseK (setK t ti ts k) fi fs) \<and>
         ht_hashpower (eraseK (setK t ti ts k) fi fs) = ht_hashpower t \<and>
         keys_sub (eraseK (setK t ti ts k) fi fs) t"
proof -
  let ?t1 = "setK t ti ts k"
  let ?t2 = "eraseK ?t1 fi fs"
  from inv have wf: "wf_table t"
    and cand: "\<And>i s k. stored t i s k \<Longrightarrow> candidate (ht_hashpower t) (hashed_key hf k) i"
    and uniq: "\<And>i s i' s' k. stored t i s k \<Longrightarrow> stored t i' s' k \<Longrightarrow> i' = i \<and> s' = s"
    unfolding table_inv_def by blast+
  have hp1: "ht_hashpower ?t1 = ht_hashpower t" by (simp add: setK_def)
  have hp2: "ht_hashpower ?t2 = ht_hashpower t" by (simp add: setK_def eraseK_def)
  from fr have fi: "unat fi < 2 ^ ht_hashpower t" and fs: "fs < slot_per_bucket"
    by (simp_all add: stored_def)
  have wf1: "wf_table ?t1" by (rule wf_table_setK [OF wf to(1)])
  have wf2: "wf_table ?t2" by (rule wf_table_eraseK [OF wf1]) (simp add: hp1 fi)
  have st1: "stored ?t1 j r k' \<longleftrightarrow> (if j = ti \<and> r = ts then k' = k else stored t j r k')"
    for j r k'
    by (rule stored_setK [OF wf to])
  have st2: "stored ?t2 j r k' \<longleftrightarrow> (if j = fi \<and> r = fs then False else stored ?t1 j r k')"
    for j r k'
    by (rule stored_eraseK [OF wf1 _ fs]) (simp add: hp1 fi)
  from em fr have ne: "\<not> (fi = ti \<and> fs = ts)"
    by (auto simp: occupied_def stored_def)
  have st: "stored ?t2 j r k' \<longleftrightarrow>
            (j = ti \<and> r = ts \<and> k' = k) \<or> (stored t j r k' \<and> \<not> (j = fi \<and> r = fs) \<and> \<not> (j = ti \<and> r = ts))"
    for j r k'
    using ne by (auto simp: st1 st2)
  from cand [OF fr] have "candidate (ht_hashpower t) (hashed_key hf k) ti"
    unfolding al by (rule candidate_alt)
  then have c2: "candidate (ht_hashpower ?t2) (hashed_key hf k') j" if "stored ?t2 j r k'" for j r k'
    using that cand unfolding hp2 st by blast
  have old: "j = fi \<and> r = fs" if "stored t j r k" for j r
    using uniq [OF fr that] by simp
  have u2: "j' = j \<and> r' = r" if "stored ?t2 j r k'" "stored ?t2 j' r' k'" for j r j' r' k'
    using that uniq old unfolding st by blast
  have sub: "\<exists>i' s'. stored t i' s' k'" if "stored ?t2 i s k'" for i s k'
    using that fr unfolding st by blast
  from wf2 c2 u2 have "table_inv hf ?t2" unfolding table_inv_def by blast
  with hp2 sub show ?thesis unfolding keys_sub_def by blast
qed

lemma move_loop_inv:
  assumes "move_loop hf t path d tr = (r, t', tr')"
    and "table_inv hf t" and "path_ok (ht_hashpower t) path d"
  shows "table_inv hf t' \<and> ht_hashpower t' = ht_hashpower t \<and> keys_sub t' t"
  using assms
proof (induction d arbitrary: t tr)
  case 0
  then show ?case by (simp add: keys_sub_refl)
next
  case (Suc d)
  let ?hp = "ht_hashpower t"
  let ?from = "path ! d" and ?to = "path ! Suc d"
  let ?fs = "unat (cr_slot ?from)" and ?ts = "unat (cr_slot ?to)"
  let ?fb = "bucket_at t (cr_bucket ?from)" and ?tb = "bucket_at t (cr_bucket ?to)"
  note po = Suc.prems(3)
  from po have fi: "unat (cr_bucket ?from) < 2 ^ ?hp" and fs: "?fs < slot_per_bucket"
    by (simp_all add: path_ok_def)
  from po have ti: "unat (cr_bucket ?to) < 2 ^ ?hp" and ts: "?ts < slot_per_bucket"
    by (simp_all add: path_ok_def alt_index_less)
  from po have link: "cr_bucket ?to = alt_index ?hp (cr_hv ?from) (cr_bucket ?from)"
    by (simp add: path_ok_def)
  have same: "table_inv hf t \<and> ht_hashpower t = ht_hashpower t \<and> keys_sub t t"
    using Suc.prems(2) by (simp add: keys_sub_refl)
  show ?case
  proof (cases "?fb ! ?fs")
    case None
    with Suc.prems(1) have "t' = t" by (simp add: Let_def)
    with same show ?thesis by simp
  next
    case (Some k)
    show ?thesis
    proof (cases "occupied ?tb ?ts \<or> hashed_key hf k \<noteq> cr_hv ?from")
      case True
      with Some Suc.prems(1) have "t' = t" by (auto simp: Let_def)
      with same show ?thesis by simp
    next
      case False
      let ?t2 = "eraseK (setK t (cr_bucket ?to) ?ts k) (cr_bucket ?from) ?fs"
      from False Some Suc.prems(1)
      have ml: "move_loop hf ?t2 path d ((cr_bucket ?to, cr_slot ?to) # tr) = (r, t', tr')"
        by (simp add: Let_def)
      have fr: "stored t (cr_bucket ?from) ?fs k"
        using fi fs Some by (simp add: stored_def)
      from False have em: "\<not> occupied ?tb ?ts" and hv: "hashed_key hf k = cr_hv ?from"
        by simp_all
      have al: "cr_bucket ?to = alt_index ?hp (hashed_key hf k) (cr_bucket ?from)"
        using link hv by simp
      from move_step_inv [OF Suc.prems(2) fr ti ts em al]
      have i2: "table_inv hf ?t2" and h2: "ht_hashpower ?t2 = ?hp" and k2: "keys_sub ?t2 t"
        by blast+
      from po have "path_ok (ht_hashpower ?t2) path d"
        unfolding h2 by (rule path_ok_less)
      from Suc.IH [OF ml i2 this] h2 k2 show ?thesis
        by (auto intro: keys_sub_trans)
    qed
  qed
qed

lemma cuckoopath_move_inv:
  assumes "cuckoopath_move hf t hp path d b tr = Inr (r, t', tr')"
    and "table_inv hf t" and "path_ok (ht_hashpower t) path d"
  shows "table_inv hf t' \<and> ht_hashpower t' = ht_hashpower t \<and> keys_sub t' t"
proof (cases "d = 0")
  case True
  with assms(1) have "t' = t"
    by (auto simp: cuckoopath_move_def Let_def split: if_splits)
  with assms(2) show ?thesis by (simp add: keys_sub_refl)
next
  case False
  with assms(1) have "move_loop hf t path d tr = (r, t', tr')"
    by (simp add: cuckoopath_move_def)
  from move_loop_inv [OF this assms(2,3)] show ?thesis .
qed

lemma run_cuckoo_loop_inv:
  assumes rc: "run_cuckoo_loop hf t hp path b tr = Some (Inr (st, ib, sl0, t', tr'))"
    and inv: "table_inv hf t" and hp: "hp = ht_hashpower t"
    and len: "length path = MAX_BFS_PATH_LEN"
    and i1: "unat (tb_i1 b) < 2 ^ hp" and i2: "unat (tb_i2 b) < 2 ^ hp"
  shows "table_inv hf t' \<and> ht_hashpower t' = hp \<and> keys_sub t' t \<and>
         (st = ok \<longrightarrow> (ib = tb_i1 b \<or> ib = tb_i2 b) \<and> unat sl0 < slot_per_bucket \<and>
            \<not> occupied (bucket_at t' ib) (unat sl0))"
proof -
  let ?Q = "\<lambda>hf hp b t y. \<forall>st ib sl0 t' tr'. y = Inr (st, ib, sl0, t', tr') \<longrightarrow>
         table_inv hf t' \<and> ht_hashpower t' = hp \<and> keys_sub t' t \<and>
         (st = ok \<longrightarrow> (ib = tb_i1 b \<or> ib = tb_i2 b) \<and> unat sl0 < slot_per_bucket \<and>
            \<not> occupied (bucket_at t' ib) (unat sl0))"
  have "table_inv hf t \<longrightarrow> hp = ht_hashpower t \<longrightarrow> length path = MAX_BFS_PATH_LEN \<longrightarrow>
        unat (tb_i1 b) < 2 ^ hp \<longrightarrow> unat (tb_i2 b) < 2 ^ hp \<longrightarrow>
        ?Q hf hp b t (Inr (st, ib, sl0, t', tr') :: exn + _)"
  proof (rule run_cuckoo_loop.raw_induct
      [where P = "\<lambda>hf t hp path b tr y. table_inv hf t \<longrightarrow> hp = ht_hashpower t \<longrightarrow>
          length path = MAX_BFS_PATH_LEN \<longrightarrow>
          unat (tb_i1 b) < 2 ^ hp \<longrightarrow> unat (tb_i2 b) < 2 ^ hp \<longrightarrow> ?Q hf hp b t y",
       OF _ rc], goal_cases)
    case (1 f hf t hp path b tr y)
    show ?case
    proof (intro impI)
      assume inv: "table_inv hf t" and hp: "hp = ht_hashpower t"
        and len: "length path = MAX_BFS_PATH_LEN"
        and i1: "unat (tb_i1 b) < 2 ^ hp" and i2: "unat (tb_i2 b) < 2 ^ hp"
      note body = 1(2)
      show "?Q hf hp b t y"
      proof (intro allI impI)
        fix st ib sl0 t' tr'
        assume y: "y = Inr (st, ib, sl0, t', tr')"
        from body y obtain d path1 where
          cs: "cuckoopath_search hf t hp path (tb_i1 b) (tb_i2 b) = Some (Inr (d, path1))"
          by (auto split: option.splits sum.splits)
        from cuckoopath_search_ok [OF cs len i1 i2]
        have len1: "length path1 = MAX_BFS_PATH_LEN"
          and dp: "d < 0 \<or> path_ok hp path1 (nat d)" by blast+
        show "table_inv hf t' \<and> ht_hashpower t' = hp \<and> keys_sub t' t \<and>
           (st = ok \<longrightarrow> (ib = tb_i1 b \<or> ib = tb_i2 b) \<and> unat sl0 < slot_per_bucket \<and>
              \<not> occupied (bucket_at t' ib) (unat sl0))"
        proof (cases "d < 0")
          case True
          with body cs y have "st = failure" "t' = t" by simp_all
          with inv hp show ?thesis by (simp add: keys_sub_refl)
        next
          case False
          with dp have po: "path_ok (ht_hashpower t) path1 (nat d)" by (simp add: hp)
          from body cs False y obtain moved t1 tr1 where
            mv: "cuckoopath_move hf t hp path1 (nat d) b tr = Inr (moved, t1, tr1)"
            by (auto split: sum.splits)
          from cuckoopath_move_inv [OF mv inv po]
          have inv1: "table_inv hf t1" and hp1: "ht_hashpower t1 = ht_hashpower t"
            and ks1: "keys_sub t1 t" by blast+
          show ?thesis
          proof (cases moved)
            case True
            from po have s0: "unat (cr_slot (path1 ! 0)) < slot_per_bucket"
              by (simp add: path_ok_def)
            from body cs False mv True y
            have "st = ok \<and> ib = cr_bucket (path1 ! 0) \<and> sl0 = cr_slot (path1 ! 0) \<and> t' = t1 \<and>
                  (ib = tb_i1 b \<or> ib = tb_i2 b) \<and> \<not> occupied (bucket_at t1 ib) (unat sl0)"
              by (auto simp: Let_def split: if_splits)
            with inv1 hp1 ks1 s0 hp show ?thesis by auto
          next
            case nm: False
            from body cs False mv nm y
            have "f hf t1 hp path1 b tr1 = Some (Inr (st, ib, sl0, t', tr'))" by simp
            from 1(1) [OF this] inv1 hp1 hp len1 i1 i2
            have "table_inv hf t' \<and> ht_hashpower t' = hp \<and> keys_sub t' t1 \<and>
               (st = ok \<longrightarrow> (ib = tb_i1 b \<or> ib = tb_i2 b) \<and> unat sl0 < slot_per_bucket \<and>
                  \<not> occupied (bucket_at t' ib) (unat sl0))"
              by simp
            with ks1 show ?thesis by (auto intro: keys_sub_trans)
          qed
        qed
      qed
    qed
  qed
  with inv hp len i1 i2 show ?thesis by blast
qed

lemma stored_num_items: "stored (t\<lparr>ht_num_items := n\<rparr>) = stored t"
  by (intro ext) (simp add: stored_def bucket_at_def)

lemma table_inv_setK:
  assumes inv: "table_inv hf t"
    and i: "unat i < 2 ^ ht_hashpower t" and s: "s < slot_per_bucket"
    and c: "candidate (ht_hashpower t) (hashed_key hf key) i"
    and ns: "\<And>j r. \<not> stored t j r key"
  shows "table_inv hf (setK t i s key) \<and> stored (setK t i s key) i s key"
proof -
  let ?t1 = "setK t i s key"
  from inv have wf: "wf_table t"
    and cand: "\<And>i s k. stored t i s k \<Longrightarrow> candidate (ht_hashpower t) (hashed_key hf k) i"
    and uniq: "\<And>i s i' s' k. stored t i s k \<Longrightarrow> stored t i' s' k \<Longrightarrow> i' = i \<and> s' = s"
    unfolding table_inv_def by blast+
  have hp1: "ht_hashpower ?t1 = ht_hashpower t" by (simp add: setK_def)
  have wf1: "wf_table ?t1" by (rule wf_table_setK [OF wf i])
  have st: "stored ?t1 j r k' \<longleftrightarrow> (j = i \<and> r = s \<and> k' = key) \<or> (stored t j r k' \<and> \<not> (j = i \<and> r = s))"
    for j r k'
    by (auto simp: stored_setK [OF wf i s])
  have c1: "candidate (ht_hashpower ?t1) (hashed_key hf k') j" if "stored ?t1 j r k'" for j r k'
    using that cand c unfolding hp1 st by blast
  have u1: "j' = j \<and> r' = r" if "stored ?t1 j r k'" "stored ?t1 j' r' k'" for j r j' r' k'
    using that uniq ns unfolding st by blast
  from wf1 c1 u1 have "table_inv hf ?t1" unfolding table_inv_def by blast
  moreover have "stored ?t1 i s key" unfolding st by simp
  ultimately show ?thesis by simp
qed

lemma unat_of_nat_slot: "s < slot_per_bucket \<Longrightarrow> unat (of_nat s :: size_type) = s"
  by (simp add: slot_per_bucket_def of_nat_inverse [OF refl])

lemma insert_ht_inv:
  assumes inv: "table_inv hf t" and ins: "insert_ht hf t key = Some (Inr ((i, sl), t'))"
  shows "table_inv hf t' \<and> ht_hashpower t' = ht_hashpower t \<and> stored t' i (unat sl) key"
proof -
  let ?hp = "ht_hashpower t"
  let ?hv = "hashed_key hf key"
  define b where "b = compute_buckets t ?hv"
  from compute_buckets_less [of t ?hv]
  have i1: "unat (tb_i1 b) < 2 ^ ?hp" and i2: "unat (tb_i2 b) < 2 ^ ?hp"
    by (simp_all add: b_def)
  have c1: "candidate ?hp ?hv (tb_i1 b)" and c2: "candidate ?hp ?hv (tb_i2 b)"
    by (simp_all add: b_def compute_buckets_def Let_def hashpower_def candidate_def)
  have cb: "j = tb_i1 b \<or> j = tb_i2 b" if "candidate ?hp ?hv j" for j
    using that by (auto simp: b_def compute_buckets_def Let_def hashpower_def candidate_def)
  show ?thesis
  proof (cases "holds_key (bucket_at t (tb_i1 b)) key \<or> holds_key (bucket_at t (tb_i2 b)) key")
    case True
    from insert_ht_duplicate [OF b_def True]
    obtain i0 s0 where r: "insert_ht hf t key = Some (Inr ((i0, of_nat s0), t))"
      and s0: "s0 < slot_per_bucket" and i0: "i0 = tb_i1 b \<or> i0 = tb_i2 b"
      and k: "bucket_at t i0 ! s0 = Some key" by blast
    from r ins have e: "i = i0" "sl = of_nat s0" "t' = t" by simp_all
    from i0 i1 i2 have "unat i0 < 2 ^ ?hp" by blast
    with s0 k have "stored t i0 s0 key" by (simp add: stored_def)
    with e inv s0 show ?thesis by (simp add: unat_of_nat_slot)
  next
    case False
    then have n1: "\<not> holds_key (bucket_at t (tb_i1 b)) key"
      and n2: "\<not> holds_key (bucket_at t (tb_i2 b)) key" by simp_all
    have ns: "\<not> stored t j r key" for j r
    proof
      assume st: "stored t j r key"
      with inv have "candidate ?hp ?hv j" unfolding table_inv_def by blast
      from cb [OF this] st n1 n2 show False
        by (auto simp: stored_def holds_key_def)
    qed
    from try_find_insert_bucket_nodup [OF n1, of ?hv]
    obtain r1 where tf1: "try_find_insert_bucket (bucket_at t (tb_i1 b)) ?hv key = (True, r1)"
      and e1: "r1 = - 1 \<or> (\<exists>s < slot_per_bucket. r1 = int s \<and> bucket_at t (tb_i1 b) ! s = None)"
      by blast
    from try_find_insert_bucket_nodup [OF n2, of ?hv]
    obtain r2 where tf2: "try_find_insert_bucket (bucket_at t (tb_i2 b)) ?hv key = (True, r2)"
      and e2: "r2 = - 1 \<or> (\<exists>s < slot_per_bucket. r2 = int s \<and> bucket_at t (tb_i2 b) ! s = None)"
      by blast
    have place: "table_inv hf t' \<and> ht_hashpower t' = ht_hashpower t \<and> stored t' i (unat sl) key"
      if ci: "cuckoo_insert hf t ?hv b key [] =
                Some (Inr (\<lparr> tp_index = j, tp_slot = of_nat s, tp_status = ok \<rparr>, t1, tr1))"
        and inv1: "table_inv hf t1" and hp1: "ht_hashpower t1 = ?hp"
        and ks: "keys_sub t1 t" and j: "j = tb_i1 b \<or> j = tb_i2 b" and s: "s < slot_per_bucket"
      for j s t1 tr1
    proof -
      from ins ci have e: "i = j" "sl = of_nat s"
        "t' = (setK t1 j (unat (of_nat s :: size_type)) key)\<lparr>ht_num_items := ht_num_items t1 + 1\<rparr>"
        by (auto simp add: insert_ht_def cuckoo_insert_loop_def Let_def add_to_bucket_def
            simp flip: b_def)
      have us: "unat (of_nat s :: size_type) = s" by (rule unat_of_nat_slot [OF s])
      from j i1 i2 hp1 have jl: "unat j < 2 ^ ht_hashpower t1" by auto
      from j c1 c2 hp1 have jc: "candidate (ht_hashpower t1) ?hv j" by auto
      have ns1: "\<not> stored t1 j' r key" for j' r
        using ks ns unfolding keys_sub_def by blast
      from table_inv_setK [OF inv1 jl s jc ns1]
      have "table_inv hf (setK t1 j s key)" "stored (setK t1 j s key) j s key" by simp_all
      moreover have "ht_hashpower (setK t1 j s key) = ?hp" by (simp add: setK_def hp1)
      ultimately show ?thesis
        by (simp add: e us table_inv_num_items stored_num_items)
    qed
    show ?thesis
    proof (cases "r1 = - 1")
      case False
      with e1 obtain s where s: "s < slot_per_bucket" "r1 = int s" by blast
      have "cuckoo_insert hf t ?hv b key [] =
              Some (Inr (\<lparr> tp_index = tb_i1 b, tp_slot = of_nat s, tp_status = ok \<rparr>, t, []))"
        using tf1 tf2 False s by (simp add: cuckoo_insert_def)
      from place [OF this inv refl keys_sub_refl _ s(1)] show ?thesis by simp
    next
      case r1: True
      show ?thesis
      proof (cases "r2 = - 1")
        case False
        with e2 obtain s where s: "s < slot_per_bucket" "r2 = int s" by blast
        have "cuckoo_insert hf t ?hv b key [] =
                Some (Inr (\<lparr> tp_index = tb_i2 b, tp_slot = of_nat s, tp_status = ok \<rparr>, t, []))"
          using tf1 tf2 r1 False s by (simp add: cuckoo_insert_def)
        from place [OF this inv refl keys_sub_refl _ s(1)] show ?thesis by simp
      next
        case r2: True
        have ci: "cuckoo_insert hf t ?hv b key [] =
           (case run_cuckoo hf t b [] of
              None \<Rightarrow> None
            | Some (Inl e) \<Rightarrow> Some (Inl e)
            | Some (Inr (st, insert_bucket, insert_slot, t1, tr1)) \<Rightarrow>
                if st = ok then
                  (if occupied (bucket_at t1 insert_bucket) (unat insert_slot) then
                     Some (Inl assertion_failed)
                   else if \<not> (insert_bucket = index_hash (hashpower t1) ?hv \<or>
                                insert_bucket =
                                  alt_index (hashpower t1) ?hv (index_hash (hashpower t1) ?hv))
                   then Some (Inl assertion_failed)
                   else Some (Inr (\<lparr> tp_index = insert_bucket, tp_slot = insert_slot,
                                       tp_status = ok \<rparr>, t1, tr1)))
                else if st \<noteq> failure then Some (Inl assertion_failed)
                else Some (Inr (\<lparr> tp_index = 0, tp_slot = 0,
                                    tp_status = failure_table_full \<rparr>, t1, tr1)))"
          using tf1 tf2 r1 r2 by (simp add: cuckoo_insert_def)
        from ins obtain pos t1 tr1 where
          cl: "cuckoo_insert hf t ?hv b key [] = Some (Inr (pos, t1, tr1))"
          and pst: "tp_status pos = ok \<or> tp_status pos = failure_key_duplicated"
          by (auto simp: insert_ht_def cuckoo_insert_loop_def Let_def b_def
              split: option.splits sum.splits if_splits)
        from cl [unfolded ci] pst obtain ib sl0 where
          rc: "run_cuckoo hf t b [] = Some (Inr (ok, ib, sl0, t1, tr1))"
          and pos: "pos = \<lparr> tp_index = ib, tp_slot = sl0, tp_status = ok \<rparr>"
          by (auto split: option.splits sum.splits if_splits)
        from rc have rl: "run_cuckoo_loop hf t ?hp CuckooRecords_init b [] =
                            Some (Inr (ok, ib, sl0, t1, tr1))"
          by (simp add: run_cuckoo_def hashpower_def)
        have len: "length CuckooRecords_init = MAX_BFS_PATH_LEN"
          by (simp add: CuckooRecords_init_def)
        from run_cuckoo_loop_inv [OF rl inv refl len i1 i2]
        have inv1: "table_inv hf t1" and hp1: "ht_hashpower t1 = ?hp" and ks: "keys_sub t1 t"
          and ib: "ib = tb_i1 b \<or> ib = tb_i2 b" and sl0: "unat sl0 < slot_per_bucket"
          by simp_all
        have "cuckoo_insert hf t ?hv b key [] =
                Some (Inr (\<lparr> tp_index = ib, tp_slot = of_nat (unat sl0), tp_status = ok \<rparr>, t1, tr1))"
          using cl pos by simp
        from place [OF this inv1 hp1 ks ib sl0] show ?thesis .
      qed
    qed
  qed
qed

lemma insert_all_inv:
  assumes "insert_all hf t ks = Some (Inr t')" and "table_inv hf t"
  shows "table_inv hf t'"
  using assms
proof (induction ks arbitrary: t)
  case Nil
  then show ?case by simp
next
  case (Cons k ks)
  from Cons.prems(1) obtain loc t1 where i: "insert_ht hf t k = Some (Inr (loc, t1))"
    and r: "insert_all hf t1 ks = Some (Inr t')"
    by (auto split: option.splits sum.splits)
  obtain j sl where "loc = (j, sl)" by (cases loc)
  with insert_ht_inv [OF Cons.prems(2)] i have "table_inv hf t1" by blast
  from Cons.IH [OF r this] show ?case .
qed

lemma insert_ht_stored:
  assumes inv: "table_inv hf t" and st: "stored t i s key"
  shows "insert_ht hf t key = Some (Inr ((i, of_nat s), t))"
proof -
  let ?hp = "ht_hashpower t"
  let ?hv = "hashed_key hf key"
  define b where "b = compute_buckets t ?hv"
  from inv st have "candidate ?hp ?hv i" unfolding table_inv_def by blast
  then have ib: "i = tb_i1 b \<or> i = tb_i2 b"
    by (auto simp: b_def compute_buckets_def Let_def hashpower_def candidate_def)
  from st have "holds_key (bucket_at t i) key"
    by (auto simp: stored_def holds_key_def)
  with ib have h: "holds_key (bucket_at t (tb_i1 b)) key \<or> holds_key (bucket_at t (tb_i2 b)) key"
    by blast
  from insert_ht_duplicate [OF b_def h]
  obtain i0 s0 where r: "insert_ht hf t key = Some (Inr ((i0, of_nat s0), t))"
    and s0: "s0 < slot_per_bucket" and i0: "i0 = tb_i1 b \<or> i0 = tb_i2 b"
    and k: "bucket_at t i0 ! s0 = Some key" by blast
  from compute_buckets_less [of t ?hv] i0 have "unat i0 < 2 ^ ?hp"
    by (auto simp: b_def)
  with s0 k have "stored t i0 s0 key" by (simp add: stored_def)
  with inv st have "i0 = i \<and> s0 = s" unfolding table_inv_def by blast
  with r show ?thesis by simp
qed

lemma ins_c2: "insert_all id_hash (cuckoo_hashtable_init 1) [0, 4, 8, 12, 16] = Some (Inr table_c2)"
  by (simp add: table_eval table_c2_def id_hash_def)

text \<open>
  A table that \<open>insert\<close> calls have built from the empty table stores every key in one of
  the two buckets of the key, and stores no key twice.  So in such a table \<open>insert\<close> of a
  key that is stored anywhere returns the bucket and the slot of its only copy and the
  table as it is, and a second \<open>insert\<close> of any key returns the location that the first
  one returned and leaves the table of the first one as it is.
\<close>

lemma insert_stored_reachable:
  fixes hf :: hasher
  assumes "hp < 62"
    and "insert_all hf (cuckoo_hashtable_init hp) ks = Some (Inr t)"
    and "stored t i s key"
  shows "insert_ht hf t key = Some (Inr ((i, of_nat s), t)) \<and>
         (\<forall>i' s'. stored t i' s' key \<longrightarrow> i' = i \<and> s' = s) \<and>
         (\<forall>loc t1. insert_ht hf t key' = Some (Inr (loc, t1)) \<longrightarrow>
            insert_ht hf t1 key' = Some (Inr (loc, t1)))"
proof -
  from insert_all_inv [OF assms(2) table_inv_init [OF assms(1)]]
  have inv: "table_inv hf t" .
  have a: "insert_ht hf t key = Some (Inr ((i, of_nat s), t))"
    by (rule insert_ht_stored [OF inv assms(3)])
  have b: "\<forall>i' s'. stored t i' s' key \<longrightarrow> i' = i \<and> s' = s"
    using inv assms(3) unfolding table_inv_def by blast
  have c: "insert_ht hf t1 key' = Some (Inr (loc, t1))"
    if "insert_ht hf t key' = Some (Inr (loc, t1))" for loc t1
  proof -
    obtain j sl where l: "loc = (j, sl)" by (cases loc)
    from insert_ht_inv [OF inv that [unfolded l]]
    have "table_inv hf t1" and "stored t1 j (unat sl) key'" by simp_all
    from insert_ht_stored [OF this] l show ?thesis by simp
  qed
  have c': "\<forall>loc t1. insert_ht hf t key' = Some (Inr (loc, t1)) \<longrightarrow>
            insert_ht hf t1 key' = Some (Inr (loc, t1))"
    using c by blast
  show ?thesis
    by (intro conjI) (rule a, rule b, rule c')
qed

lemma insert_stored_reachable_example:
  "stored table_c2 1 3 16 \<and>
   insert_ht id_hash table_c2 16 = Some (Inr ((1, 3), table_c2)) \<and>
   (\<forall>i' s'. stored table_c2 i' s' 16 \<longrightarrow> i' = 1 \<and> s' = 3)"
proof -
  have h1: "(1 :: nat) < 62" by simp
  have h3: "stored table_c2 1 3 16"
    by (simp add: stored_def table_c2_def bucket_at_def slot_per_bucket_def)
  note r = insert_stored_reachable [OF h1 ins_c2 h3]
  from r [THEN conjunct1]
  have a: "insert_ht id_hash table_c2 16 = Some (Inr ((1, 3), table_c2))" by simp
  from r [THEN conjunct2, THEN conjunct1]
  have b: "\<forall>i' s'. stored table_c2 i' s' 16 \<longrightarrow> i' = 1 \<and> s' = 3" .
  show ?thesis
    by (intro conjI) (rule h3, rule a, rule b)
qed

section \<open>The claims about the table engine\<close>

lemma insert_all_append:
  "insert_all hf t (xs @ ys) =
     (case insert_all hf t xs of
        None \<Rightarrow> None
      | Some (Inl e) \<Rightarrow> Some (Inl e)
      | Some (Inr t1) \<Rightarrow> insert_all hf t1 ys)"
proof (induction xs arbitrary: t)
  case Nil
  then show ?case by simp
next
  case (Cons x xs)
  then show ?case by (auto split: option.splits sum.splits)
qed

lemma wf_table_t3: "wf_table table_t3"
  by (simp add: wf_table_def table_t3_def slot_per_bucket_def)






text \<open>
  Claim C8: in a BFS eviction search the number of entries ever enqueued (\<open>last_\<close>) never
  exceeds the queue capacity \<open>MAX_CUCKOO_COUNT\<close>, which is 682 for four slots per bucket
  and paths of at most five records: \<open>slot_search\<close> returns, and it returns a slot, so
  that no \<open>assert(!full())\<close> failed on the way.
\<close>

theorem C8_queue_bound:
  assumes "wf_table t" and "hp = hashpower t"
    and "unat i1 < 2 ^ hp" and "unat i2 < 2 ^ hp"
  shows "MAX_CUCKOO_COUNT = 682 \<and>
         (\<exists>x q. slot_search t hp i1 i2 = Some (Inr (x, q)) \<and> bq_last q \<le> MAX_CUCKOO_COUNT)"
proof -
  from assms(1,2) have "hp < 64" by (simp add: wf_table_def hashpower_def)
  from slot_search_bound [OF this assms(3,4), of t] show ?thesis
    by (auto simp: MAX_CUCKOO_COUNT_eq bq_last_def)
qed

theorem C8_queue_bound_witness:
  "wf_table table_t3 \<and> (1 :: nat) = hashpower table_t3 \<and> unat (1 :: size_type) < 2 ^ 1 \<and>
   MAX_CUCKOO_COUNT = 682 \<and>
   (\<exists>x q. slot_search table_t3 1 1 1 = Some (Inr (x, q)) \<and> bq_last q \<le> MAX_CUCKOO_COUNT)"
proof -
  have h2: "(1 :: nat) = hashpower table_t3" by (simp add: hashpower_def table_t3_def)
  have h3: "unat (1 :: size_type) < 2 ^ 1" by simp
  show ?thesis
    using wf_table_t3 h2 h3 C8_queue_bound [OF wf_table_t3 h2 h3 h3] by simp
qed

text \<open>
  Claim C7 at a failing input: a table of hash power 1 whose hash functor multiplies by
  three.  After \<open>insert\<close> of 1, 3, 5, 7 bucket 1 is full, and both buckets of key 9 are
  bucket 1.  \<open>slot_search\<close> follows the alternate bucket of the raw key 5 to the empty
  bucket 0, \<open>cuckoopath_search\<close> follows the alternate bucket of the hashed key to the
  full bucket 1, \<open>cuckoopath_move\<close> refuses the move and changes nothing, and the loop of
  \<open>run_cuckoo\<close> starts the same round again: \<open>insert\<close> of 9 does not return.
\<close>

theorem C7_insert_never_returns:
  "insert_all times3 (cuckoo_hashtable_init 1) [1, 3, 5, 7] = Some (Inr table_t3) \<and>
   compute_buckets table_t3 (hashed_key times3 9) = \<lparr> tb_i1 = 1, tb_i2 = 1 \<rparr> \<and>
   cuckoopath_search times3 table_t3 1 CuckooRecords_init 1 1 = Some (Inr (1, path_t3)) \<and>
   cuckoopath_move times3 table_t3 1 path_t3 1 \<lparr> tb_i1 = 1, tb_i2 = 1 \<rparr> [] =
     Inr (False, table_t3, []) \<and>
   insert_ht times3 table_t3 9 = None \<and>
   insert_all times3 (cuckoo_hashtable_init 1) [1, 3, 5, 7, 9] = None"
proof -
  have a: "insert_all times3 table_t3 [9] = None"
    using t3_diverges by simp
  have "insert_all times3 (cuckoo_hashtable_init 1) ([1, 3, 5, 7] @ [9]) = None"
    by (simp only: insert_all_append ins4 a option.case sum.case)
  then have "insert_all times3 (cuckoo_hashtable_init 1) [1, 3, 5, 7, 9] = None"
    by (simp del: insert_all.simps)
  with ins4 cb s1 m1 [of "[]"] t3_diverges show ?thesis by (simp del: insert_all.simps)
qed

text \<open>
  Claim C2 at a failing input: a table of hash power 1 with the identity hash.  The keys
  0, 4, 8, 12 fill bucket 0, the primary bucket of key 16, which goes to slot 3 of its
  alternate bucket 1.  \<open>cuckoo_find\<close> finds it there and reports bucket 0 with slot 3, and
  \<open>find\<close> of 16 returns the key stored at that place, 0.  That is with empty slots that
  read as zero; whatever the three empty slots of bucket 1 read as, \<open>cuckoo_find\<close> reports
  bucket 0 and \<open>find\<close> of 16 returns one of the keys of bucket 0, never 16.
\<close>

theorem C2_find_returns_other_key:
  "insert_all id_hash (cuckoo_hashtable_init 1) [0, 4, 8, 12, 16] = Some (Inr table_c2) \<and>
   compute_buckets table_c2 (hashed_key id_hash 16) = \<lparr> tb_i1 = 0, tb_i2 = 1 \<rparr> \<and>
   bucket_at table_c2 1 ! 3 = Some 16 \<and>
   cuckoo_find zero_slots table_c2 16 0 1 = \<lparr> tp_index = 0, tp_slot = 3, tp_status = ok \<rparr> \<and>
   find_ht id_hash zero_slots table_c2 16 = Inr 0 \<and>
   find_ht id_hash ek table_c2 16 \<in> {Inr 12, Inr 8, Inr 4, Inr 0}"
  by (simp add: table_eval table_c2_def id_hash_def zero_slots_def)




text \<open>
  Claim C9: \<open>insert\<close> of a key that is stored in one of its two buckets returns the
  bucket and slot of a stored copy and the table as it is, so no second copy is made
  and \<open>size()\<close> does not change.  In particular \<open>insert\<close> of a key into an empty table,
  twice: both calls return slot 3 of the primary bucket, and \<open>size()\<close> is 1.
\<close>

theorem C9_duplicate_insert:
  fixes hf hf' :: hasher and key key' :: key_type
  assumes "wf_table t" and "b = compute_buckets t (hashed_key hf key)"
    and "holds_key (bucket_at t (tb_i1 b)) key \<or> holds_key (bucket_at t (tb_i2 b)) key"
    and "hp < 62"
  shows "(\<exists>i s. insert_ht hf t key = Some (Inr ((i, of_nat s), t)) \<and> s < slot_per_bucket \<and>
            (i = tb_i1 b \<or> i = tb_i2 b) \<and> bucket_at t i ! s = Some key) \<and>
         (let t0 = cuckoo_hashtable_init hp;
              i1 = index_hash hp (hashed_key hf' key');
              t1 = (setK t0 i1 3 key')\<lparr>ht_num_items := 1\<rparr>
          in insert_ht hf' t0 key' = Some (Inr ((i1, 3), t1)) \<and>
             insert_ht hf' t1 key' = Some (Inr ((i1, 3), t1)) \<and> size_ht t1 = 1)"
  using insert_ht_duplicate [OF assms(2,3)] insert_twice [OF assms(4), of hf' key']
  by (simp add: Let_def)

theorem C9_duplicate_insert_witness:
  "wf_table table_c2 \<and>
   compute_buckets table_c2 (hashed_key id_hash 16) = \<lparr> tb_i1 = 0, tb_i2 = 1 \<rparr> \<and>
   holds_key (bucket_at table_c2 1) 16 \<and> (1 :: nat) < 62 \<and>
   insert_ht id_hash table_c2 16 = Some (Inr ((1, 3), table_c2)) \<and>
   (\<exists>i s. insert_ht id_hash table_c2 16 = Some (Inr ((i, of_nat s), table_c2)) \<and>
      s < slot_per_bucket \<and> (i = 0 \<or> i = 1) \<and> bucket_at table_c2 i ! s = Some 16) \<and>
   (let t0 = cuckoo_hashtable_init 1;
        i1 = index_hash 1 (hashed_key id_hash 6);
        t1 = (setK t0 i1 3 6)\<lparr>ht_num_items := 1\<rparr>
    in insert_ht id_hash t0 6 = Some (Inr ((i1, 3), t1)) \<and>
       insert_ht id_hash t1 6 = Some (Inr ((i1, 3), t1)) \<and> size_ht t1 = 1)"
proof -
  let ?b = "\<lparr> tb_i1 = 0, tb_i2 = 1 \<rparr>"
  have h1: "wf_table table_c2" by (simp add: wf_table_def table_c2_def slot_per_bucket_def)
  have cb: "compute_buckets table_c2 (hashed_key id_hash 16) = ?b"
    by (simp add: table_eval table_c2_def id_hash_def)
  have h2: "?b = compute_buckets table_c2 (hashed_key id_hash 16)" by (simp add: cb)
  have b1: "bucket_at table_c2 1 = [None, None, None, Some 16]"
    by (simp add: bucket_at_def table_c2_def)
  have hk: "holds_key (bucket_at table_c2 1) 16"
    unfolding holds_key_def by (rule exI [of _ 3]) (simp add: b1 slot_per_bucket_def)
  have h3: "holds_key (bucket_at table_c2 (tb_i1 ?b)) 16 \<or> holds_key (bucket_at table_c2 (tb_i2 ?b)) 16"
    using hk by simp
  have h4: "(1 :: nat) < 62" by simp
  note c = C9_duplicate_insert [OF h1 h2 h3 h4, where hf' = id_hash and key' = 6]
  have e: "insert_ht id_hash table_c2 16 = Some (Inr ((1, 3), table_c2))"
    by (simp add: table_eval table_c2_def id_hash_def)
  have c1: "\<exists>i s. insert_ht id_hash table_c2 16 = Some (Inr ((i, of_nat s), table_c2)) \<and>
      s < slot_per_bucket \<and> (i = 0 \<or> i = 1) \<and> bucket_at table_c2 i ! s = Some 16"
    using c [THEN conjunct1] by simp
  from h1 cb hk h4 e c1 c [THEN conjunct2] show ?thesis by blast
qed

end
